theory Spec2Isabelle
  imports Main "HOL-Library.AList" "HOL-Library.Char_ord" "HOL-Library.List_Lexorder"
    "HOL-Library.Code_Target_Nat"
begin

section \<open>JavaScript values and JSON text\<close>

text \<open>
  The plugin stores query results under string keys made by \<open>JSON.stringify\<close> and reads
  them back with \<open>JSON.parse\<close>. Values are the JSON-representable JavaScript values.
  A number is given by its decimal notation: \<open>JNum n\<close> is the integer \<open>n\<close> (media ids, page
  numbers, millisecond timestamps), and \<open>JDec m d\<close> is the number \<open>m / 10 ^ (d + 1)\<close> where it
  is not an integer, \<open>m\<close> not being a multiple of ten (scores, averages). Strings are lists
  of 8-bit code units. An object is the list of its own properties in the order in which
  JavaScript enumerates them.
\<close>

datatype json =
    JNull
  | JBool bool
  | JNum int
  | JDec int nat
  | JStr string
  | JArr "json list"
  | JObj "(string \<times> json) list"

datatype exn = SyntaxError | TypeError | Error string

text \<open>Truthiness, as tested by \<open>if (x)\<close>, \<open>!x\<close> and \<open>x && y\<close>.\<close>

fun truthy :: "json \<Rightarrow> bool" where
  "truthy JNull = False"
| "truthy (JBool b) = b"
| "truthy (JNum n) = (n \<noteq> 0)"
| "truthy (JDec m d) = (m \<noteq> 0)"
| "truthy (JStr s) = (s \<noteq> [])"
| "truthy (JArr vs) = True"
| "truthy (JObj ps) = True"

subsection \<open>Digits\<close>

definition is_digit :: "char \<Rightarrow> bool" where
  "is_digit c \<longleftrightarrow> (48::nat) \<le> of_char c \<and> of_char c \<le> (57::nat)"

definition digit_val :: "char \<Rightarrow> nat" where
  "digit_val c = of_char c - 48"

definition digit_char :: "nat \<Rightarrow> char" where
  "digit_char n = char_of (48 + n)"

definition nat_of_digits :: "string \<Rightarrow> nat" where
  "nat_of_digits ds = foldl (\<lambda>n c. 10 * n + digit_val c) 0 ds"

fun digits :: "nat \<Rightarrow> string" where
  "digits n = (if n < 10 then [digit_char n] else digits (n div 10) @ [digit_char (n mod 10)])"

declare digits.simps [simp del]

text \<open>
  \<open>Number::toString\<close> for a positive number with the decimal digits \<open>ds\<close>, the first of
  them not zero, and the decimal point after the first \<open>n\<close> of them: the digits, padded
  with zeros or split by the point, up to 21 places before the point and 6 zeros after
  it; the exponent notation beyond.
\<close>

definition strip_zeros :: "string \<Rightarrow> string" where
  "strip_zeros ds = rev (dropWhile (\<lambda>c. c = CHR ''0'') (rev ds))"

definition show_exponent :: "string \<Rightarrow> int \<Rightarrow> string" where
  "show_exponent ds e =
     hd ds # (if tl ds = [] then [] else CHR ''.'' # tl ds)
       @ CHR ''e'' # (if e < 0 then CHR ''-'' else CHR ''+'') # digits (nat \<bar>e\<bar>)"

definition show_decimal :: "string \<Rightarrow> int \<Rightarrow> string" where
  "show_decimal ds n =
     (let k = int (length ds)
      in if k \<le> n \<and> n \<le> 21 then ds @ replicate (nat (n - k)) CHR ''0''
         else if 0 < n \<and> n \<le> 21 then take (nat n) ds @ CHR ''.'' # drop (nat n) ds
         else if - 6 < n \<and> n \<le> 0 then ''0.'' @ replicate (nat (- n)) CHR ''0'' @ ds
         else show_exponent ds (n - 1))"

text \<open>\<open>Number.prototype.toString\<close> on an integer, and on \<open>m / 10 ^ (d + 1)\<close>.\<close>

definition show_int :: "int \<Rightarrow> string" where
  "show_int i =
     (if i = 0 then ''0''
      else (if i < 0 then ''-'' else [])
        @ show_decimal (strip_zeros (digits (nat \<bar>i\<bar>))) (int (length (digits (nat \<bar>i\<bar>)))))"

definition show_dec :: "int \<Rightarrow> nat \<Rightarrow> string" where
  "show_dec m d =
     (if m < 0 then ''-'' else [])
       @ show_decimal (digits (nat \<bar>m\<bar>)) (int (length (digits (nat \<bar>m\<bar>))) - int d - 1)"

subsection \<open>Objects: property order\<close>

text \<open>
  A property name that is an array index (a canonical decimal numeral below \<open>2^32 - 1\<close>)
  is enumerated before every other name, in ascending numeric order; the other names
  follow in the order of their creation.
\<close>

definition array_index :: "string \<Rightarrow> nat option" where
  "array_index s =
     (if s \<noteq> [] \<and> list_all is_digit s \<and> (s = ''0'' \<or> hd s \<noteq> CHR ''0'')
         \<and> nat_of_digits s < 4294967295
      then Some (nat_of_digits s) else None)"

fun obj_insert :: "string \<Rightarrow> json \<Rightarrow> (string \<times> json) list \<Rightarrow> (string \<times> json) list" where
  "obj_insert k v [] = [(k, v)]"
| "obj_insert k v ((k', v') # ps) =
     (case array_index k of
        None \<Rightarrow> (k', v') # obj_insert k v ps
      | Some i \<Rightarrow>
          (case array_index k' of
             None \<Rightarrow> (k, v) # (k', v') # ps
           | Some j \<Rightarrow> if i < j then (k, v) # (k', v') # ps
                       else (k', v') # obj_insert k v ps))"

text \<open>Setting the property \<open>k\<close> of an object: an existing property keeps its place.\<close>

definition obj_set :: "string \<Rightarrow> json \<Rightarrow> (string \<times> json) list \<Rightarrow> (string \<times> json) list" where
  "obj_set k v ps =
     (if k \<in> fst ` set ps then AList.update k v ps else obj_insert k v ps)"

text \<open>
  \<open>obj_set\<close> is the creation of a property as \<open>JSON.parse\<close> does it. The assignment
  \<open>obj[k] = v\<close> of the source does the same, except for the name \<open>__proto__\<close>: that
  assignment reaches the accessor of \<open>Object.prototype\<close> and creates no property.
\<close>

definition obj_assign :: "string \<Rightarrow> json \<Rightarrow> (string \<times> json) list \<Rightarrow> (string \<times> json) list" where
  "obj_assign k v ps = (if k = ''__proto__'' then ps else obj_set k v ps)"

text \<open>The read \<open>obj[k]\<close> of an own property; \<open>None\<close> is \<open>undefined\<close>.\<close>

definition obj_get :: "(string \<times> json) list \<Rightarrow> string \<Rightarrow> json option" where
  "obj_get ps k = map_of ps k"

subsection \<open>\<open>JSON.stringify\<close>\<close>

definition hex_char :: "nat \<Rightarrow> char" where
  "hex_char n = (if n < 10 then char_of (48 + n) else char_of (87 + n))"

definition quote_char :: "char \<Rightarrow> string" where
  "quote_char c =
     (if c = CHR 0x22 then [CHR 0x5C, CHR 0x22]
      else if c = CHR 0x5C then [CHR 0x5C, CHR 0x5C]
      else if c = CHR 0x08 then [CHR 0x5C, CHR ''b'']
      else if c = CHR 0x0C then [CHR 0x5C, CHR ''f'']
      else if c = CHR 0x0A then [CHR 0x5C, CHR ''n'']
      else if c = CHR 0x0D then [CHR 0x5C, CHR ''r'']
      else if c = CHR 0x09 then [CHR 0x5C, CHR ''t'']
      else if (of_char c :: nat) < 32
        then [CHR 0x5C, CHR ''u'', CHR ''0'', CHR ''0'',
              hex_char (of_char c div 16), hex_char (of_char c mod 16)]
      else [c])"

definition quote :: "string \<Rightarrow> string" where
  "quote s = CHR 0x22 # concat (map quote_char s) @ [CHR 0x22]"

fun commas :: "string list \<Rightarrow> string" where
  "commas [] = []"
| "commas [x] = x"
| "commas (x # y # ys) = x @ CHR '','' # commas (y # ys)"

fun stringify :: "json \<Rightarrow> string" where
  "stringify JNull = ''null''"
| "stringify (JBool b) = (if b then ''true'' else ''false'')"
| "stringify (JNum n) = show_int n"
| "stringify (JDec m d) = show_dec m d"
| "stringify (JStr s) = quote s"
| "stringify (JArr vs) = CHR ''['' # commas (map stringify vs) @ '']''"
| "stringify (JObj ps) =
     CHR ''{'' # commas (map (\<lambda>p. quote (fst p) @ CHR '':'' # stringify (snd p)) ps) @ ''}''"

subsection \<open>\<open>JSON.parse\<close>\<close>

text \<open>
  A recursive-descent reader of the JSON grammar; \<open>None\<close> is a text that is not in the
  grammar. A \<open>\\u\<close> escape is read when it is at most \<open>00FF\<close>, the code units that a
  string of the model holds; \<open>JSON_parse\<close> below tells a text with a higher escape from a
  text that is not JSON.
\<close>

definition is_ws :: "char \<Rightarrow> bool" where
  "is_ws c \<longleftrightarrow> c = CHR 0x20 \<or> c = CHR 0x09 \<or> c = CHR 0x0A \<or> c = CHR 0x0D"

definition skip_ws :: "string \<Rightarrow> string" where
  "skip_ws = dropWhile is_ws"

definition hex_val :: "char \<Rightarrow> nat option" where
  "hex_val c =
     (let n = (of_char c :: nat) in
      if 48 \<le> n \<and> n \<le> 57 then Some (n - 48)
      else if 97 \<le> n \<and> n \<le> 102 then Some (n - 87)
      else if 65 \<le> n \<and> n \<le> 70 then Some (n - 55)
      else None)"

definition unescape_u :: "char \<Rightarrow> char \<Rightarrow> char \<Rightarrow> char \<Rightarrow> char option" where
  "unescape_u a b c d =
     (case (hex_val a, hex_val b, hex_val c, hex_val d) of
        (Some h1, Some h2, Some h3, Some h4) \<Rightarrow>
          if h1 = 0 \<and> h2 = 0 then Some (char_of (16 * h3 + h4)) else None
      | _ \<Rightarrow> None)"

definition unescape :: "char \<Rightarrow> char option" where
  "unescape e =
     (if e = CHR 0x22 \<or> e = CHR 0x5C \<or> e = CHR ''/'' then Some e
      else if e = CHR ''b'' then Some (CHR 0x08)
      else if e = CHR ''f'' then Some (CHR 0x0C)
      else if e = CHR ''n'' then Some (CHR 0x0A)
      else if e = CHR ''r'' then Some (CHR 0x0D)
      else if e = CHR ''t'' then Some (CHR 0x09)
      else None)"

text \<open>The characters of a string literal after its opening quote, up to the closing one.\<close>

fun parse_chars :: "string \<Rightarrow> (string \<times> string) option" where
  "parse_chars [] = None"
| "parse_chars (c # cs) =
     (if c = CHR 0x22 then Some ([], cs)
      else if c = CHR 0x5C then
        (case cs of
           [] \<Rightarrow> None
         | e # r \<Rightarrow>
             if e = CHR ''u'' then
               (case r of
                  a # b # c' # d # r' \<Rightarrow>
                    (case unescape_u a b c' d of
                       None \<Rightarrow> None
                     | Some x \<Rightarrow> map_option (\<lambda>(s, t). (x # s, t)) (parse_chars r'))
                | _ \<Rightarrow> None)
             else
               (case unescape e of
                  None \<Rightarrow> None
                | Some x \<Rightarrow> map_option (\<lambda>(s, t). (x # s, t)) (parse_chars r)))
      else if (of_char c :: nat) < 32 then None
      else map_option (\<lambda>(s, t). (c # s, t)) (parse_chars cs))"

text \<open>
  A number literal: an optional sign, the integer part without a leading zero, an
  optional fraction and an optional exponent. It is read as it is written, the digits
  \<open>c\<close> of integer part and fraction and the number \<open>scale\<close> of places after the point;
  \<open>reify\<close> below brings it to the form of a value.
\<close>

definition parse_fraction :: "string \<Rightarrow> (string \<times> string) option" where
  "parse_fraction r =
     (if r \<noteq> [] \<and> hd r = CHR ''.'' then
        (let ds = takeWhile is_digit (tl r)
         in if ds = [] then None else Some (ds, dropWhile is_digit (tl r)))
      else Some ([], r))"

definition parse_exponent :: "string \<Rightarrow> (int \<times> string) option" where
  "parse_exponent r =
     (if r \<noteq> [] \<and> (hd r = CHR ''e'' \<or> hd r = CHR ''E'') then
        (let r1 = tl r;
             neg = (r1 \<noteq> [] \<and> hd r1 = CHR ''-'');
             r2 = (if r1 \<noteq> [] \<and> (hd r1 = CHR ''-'' \<or> hd r1 = CHR ''+'') then tl r1 else r1);
             ds = takeWhile is_digit r2
         in if ds = [] then None
            else Some (if neg then - int (nat_of_digits ds) else int (nat_of_digits ds),
                       dropWhile is_digit r2))
      else Some (0, r))"

definition number_of :: "bool \<Rightarrow> nat \<Rightarrow> int \<Rightarrow> json" where
  "number_of neg c scale =
     (let m = (if neg then - int c else int c)
      in if scale \<le> 0 then JNum (m * 10 ^ nat (- scale)) else JDec m (nat (scale - 1)))"

definition parse_number :: "string \<Rightarrow> (json \<times> string) option" where
  "parse_number cs =
     (let neg = (cs \<noteq> [] \<and> hd cs = CHR ''-'');
          cs1 = (if neg then tl cs else cs);
          ip = takeWhile is_digit cs1
      in if ip = [] then None
         else if hd ip = CHR ''0'' \<and> 1 < length ip then None
         else
           (case parse_fraction (dropWhile is_digit cs1) of
              None \<Rightarrow> None
            | Some (fp, r) \<Rightarrow>
                (case parse_exponent r of
                   None \<Rightarrow> None
                 | Some (e, r') \<Rightarrow>
                     Some (number_of neg (nat_of_digits (ip @ fp)) (int (length fp) - e), r'))))"

definition parse_literal :: "string \<Rightarrow> (json \<times> string) option" where
  "parse_literal cs =
     (if take 4 cs = ''null'' then Some (JNull, drop 4 cs)
      else if take 4 cs = ''true'' then Some (JBool True, drop 4 cs)
      else if take 5 cs = ''false'' then Some (JBool False, drop 5 cs)
      else None)"

text \<open>
  The three mutually recursive readers carry a bound on the recursion, which
  \<open>JSON_parse\<close> sets beyond the length of the text: each call is made after at least one
  character has been consumed.
\<close>

fun parse_value :: "nat \<Rightarrow> string \<Rightarrow> (json \<times> string) option"
  and parse_elements :: "nat \<Rightarrow> string \<Rightarrow> (json list \<times> string) option"
  and parse_members :: "nat \<Rightarrow> string \<Rightarrow> ((string \<times> json) list \<times> string) option"
where
  "parse_value 0 cs = None"
| "parse_value (Suc n) cs =
     (case cs of
        [] \<Rightarrow> None
      | c # r \<Rightarrow>
          if c = CHR 0x22 then map_option (\<lambda>(s, t). (JStr s, t)) (parse_chars r)
          else if c = CHR ''['' then
            (case skip_ws r of
               [] \<Rightarrow> None
             | c' # r' \<Rightarrow>
                 if c' = CHR '']'' then Some (JArr [], r')
                 else map_option (\<lambda>(vs, t). (JArr vs, t)) (parse_elements n (c' # r')))
          else if c = CHR ''{'' then
            (case skip_ws r of
               [] \<Rightarrow> None
             | c' # r' \<Rightarrow>
                 if c' = CHR ''}'' then Some (JObj [], r')
                 else map_option (\<lambda>(ps, t). (JObj ps, t)) (parse_members n (c' # r')))
          else if c = CHR ''-'' \<or> is_digit c then parse_number cs
          else parse_literal cs)"
| "parse_elements 0 cs = None"
| "parse_elements (Suc n) cs =
     (case parse_value n cs of
        None \<Rightarrow> None
      | Some (v, r) \<Rightarrow>
          (case skip_ws r of
             [] \<Rightarrow> None
           | c # r' \<Rightarrow>
               if c = CHR '','' then
                 map_option (\<lambda>(vs, t). (v # vs, t)) (parse_elements n (skip_ws r'))
               else if c = CHR '']'' then Some ([v], r')
               else None))"
| "parse_members 0 cs = None"
| "parse_members (Suc n) cs =
     (case cs of
        [] \<Rightarrow> None
      | q # r0 \<Rightarrow>
          if q \<noteq> CHR 0x22 then None
          else
            (case parse_chars r0 of
               None \<Rightarrow> None
             | Some (k, r1) \<Rightarrow>
                 (case skip_ws r1 of
                    [] \<Rightarrow> None
                  | c # r2 \<Rightarrow>
                      if c \<noteq> CHR '':'' then None
                      else
                        (case parse_value n (skip_ws r2) of
                           None \<Rightarrow> None
                         | Some (v, r3) \<Rightarrow>
                             (case skip_ws r3 of
                                [] \<Rightarrow> None
                              | c' # r4 \<Rightarrow>
                                  if c' = CHR '','' then
                                    map_option (\<lambda>(ps, t). ((k, v) # ps, t))
                                      (parse_members n (skip_ws r4))
                                  else if c' = CHR ''}'' then Some ([(k, v)], r4)
                                  else None)))))"

text \<open>
  The value that \<open>JSON.parse\<close> builds from the syntax tree: each object is created
  property by property, so a repeated name keeps its last value and array-index names
  are moved to the front; a number loses the zeros at the end of its fraction.
\<close>

definition build_object :: "(string \<times> json) list \<Rightarrow> (string \<times> json) list" where
  "build_object ps = foldl (\<lambda>obj p. obj_set (fst p) (snd p) obj) [] ps"

fun decimal :: "int \<Rightarrow> nat \<Rightarrow> json" where
  "decimal m 0 = (if m mod 10 = 0 then JNum (m div 10) else JDec m 0)"
| "decimal m (Suc d) = (if m mod 10 = 0 then decimal (m div 10) d else JDec m (Suc d))"

fun reify :: "json \<Rightarrow> json" where
  "reify (JArr vs) = JArr (map reify vs)"
| "reify (JObj ps) = JObj (build_object (map (\<lambda>p. (fst p, reify (snd p))) ps))"
| "reify (JDec m d) = decimal m d"
| "reify v = v"

text \<open>
  A JavaScript number is a binary64 floating-point number, which \<open>JSON.parse\<close> takes
  nearest to the literal and \<open>JSON.stringify\<close> prints with the fewest digits that
  give it back. For the integers up to \<open>2 ^ 53\<close>, and for the numbers of at most 15
  significant digits between \<open>1e-300\<close> and \<open>1e300\<close>, that is the number as written: these
  are the \<open>exact\<close> values. A number beyond them has no value in the model.
\<close>

definition significant :: "int \<Rightarrow> nat" where
  "significant m = length (strip_zeros (digits (nat \<bar>m\<bar>)))"

fun exact :: "json \<Rightarrow> bool" where
  "exact (JNum n) = (\<bar>n\<bar> \<le> 2 ^ 53 \<or> (significant n \<le> 15 \<and> \<bar>n\<bar> < 10 ^ 300))"
| "exact (JDec m d) = (m mod 10 \<noteq> 0 \<and> significant m \<le> 15 \<and> d < 300)"
| "exact (JArr vs) = list_all exact vs"
| "exact (JObj ps) = list_all (\<lambda>p. exact (snd p)) ps"
| "exact v = True"

text \<open>
  The text in which every escape \<open>\\uXXXX\<close> of a string literal reads \<open>\\u00XX\<close>: it is in
  the JSON grammar exactly when the text itself is. The flag says whether the reader
  is inside a string literal.
\<close>

fun narrow :: "bool \<Rightarrow> string \<Rightarrow> string" where
  "narrow q [] = []"
| "narrow False (c # cs) = c # narrow (c = CHR 0x22) cs"
| "narrow True (c # cs) =
     (if c = CHR 0x22 then c # narrow False cs
      else if c = CHR 0x5C then
        (case cs of
           [] \<Rightarrow> [c]
         | e # r \<Rightarrow>
             if e = CHR ''u'' then
               (case r of
                  a # b # r' \<Rightarrow>
                    if hex_val a \<noteq> None \<and> hex_val b \<noteq> None
                    then c # e # CHR ''0'' # CHR ''0'' # narrow True r'
                    else c # e # a # b # narrow True r'
                | _ \<Rightarrow> c # e # r)
             else c # e # narrow True r)
      else c # narrow True cs)"

text \<open>
  \<open>JSON.parse\<close>. \<open>Syntax_error\<close> is the \<open>SyntaxError\<close> it throws on a text that is not
  JSON. \<open>Outside\<close> is a JSON text whose value the model does not hold: one with a number
  that is not exact, or with an escape above \<open>00FF\<close> in a string.
\<close>

datatype read = Value json | Syntax_error | Outside

definition parse_text :: "string \<Rightarrow> json option" where
  "parse_text s =
     (case parse_value (Suc (length s)) (skip_ws s) of
        None \<Rightarrow> None
      | Some (v, r) \<Rightarrow> if skip_ws r = [] then Some v else None)"

definition JSON_parse :: "string \<Rightarrow> read" where
  "JSON_parse s =
     (case parse_text s of
        Some v \<Rightarrow> if exact (reify v) then Value (reify v) else Outside
      | None \<Rightarrow> if parse_text (narrow False s) = None then Syntax_error else Outside)"


subsection \<open>Notions used to relate the two\<close>

text \<open>
  A number literal ends where the text ends or goes on with a character that cannot
  continue it; a value starts with a character that is neither white space nor a
  closing bracket; \<open>member\<close> is the text of one property of an object.
\<close>

definition ends_number :: "string \<Rightarrow> bool" where
  "ends_number r \<longleftrightarrow> (case r of [] \<Rightarrow> True
      | c # cs \<Rightarrow> \<not> is_digit c \<and> c \<noteq> CHR ''.'' \<and> c \<noteq> CHR ''e'' \<and> c \<noteq> CHR ''E'')"

definition value_start :: "char \<Rightarrow> bool" where
  "value_start c \<longleftrightarrow> \<not> is_ws c \<and> c \<noteq> CHR '']'' \<and> c \<noteq> CHR ''}''"

definition member :: "string \<times> json \<Rightarrow> string" where
  "member p = quote (fst p) @ CHR '':'' # stringify (snd p)"

text \<open>\<open>ToString\<close>, as applied by \<open>parseInt\<close> to its argument.\<close>

fun to_string :: "json \<Rightarrow> string" where
  "to_string JNull = ''null''"
| "to_string (JBool b) = (if b then ''true'' else ''false'')"
| "to_string (JNum n) = show_int n"
| "to_string (JDec m d) = show_dec m d"
| "to_string (JStr s) = s"
| "to_string (JArr vs) = commas (map (\<lambda>v. if v = JNull then [] else to_string v) vs)"
| "to_string (JObj ps) = ''[object Object]''"

definition is_str_ws :: "char \<Rightarrow> bool" where
  "is_str_ws c \<longleftrightarrow> c \<in> {CHR 0x09, CHR 0x0A, CHR 0x0B, CHR 0x0C, CHR 0x0D, CHR 0x20, CHR 0xA0}"

text \<open>\<open>parseInt(x, 10)\<close>; \<open>None\<close> is \<open>NaN\<close>.\<close>

definition parseInt :: "json \<Rightarrow> int option" where
  "parseInt x =
     (let s = dropWhile is_str_ws (to_string x);
          neg = (s \<noteq> [] \<and> hd s = CHR ''-'');
          s1 = (if s \<noteq> [] \<and> (hd s = CHR ''-'' \<or> hd s = CHR ''+'') then tl s else s);
          ds = takeWhile is_digit s1
      in if ds = [] then None
         else Some (if neg then - int (nat_of_digits ds) else int (nat_of_digits ds)))"

section \<open>The tiered cache of \<open>ZoroPlugin\<close>\<close>

text \<open>
  A \<open>Map\<close> is the list of its entries in insertion order: \<open>Map.get\<close> is \<open>map_of\<close>,
  \<open>Map.set\<close> is \<open>AList.update\<close> (an existing key keeps its place, a new one goes last),
  \<open>Map.delete\<close> is \<open>AList.delete\<close>. An entry is the object \<open>{ value, timestamp }\<close>;
  \<open>val\<close> is \<open>None\<close> where the object has no \<open>value\<close> property.
\<close>

record entry =
  val :: "json option"
  timestamp :: int

type_synonym jsmap = "(string \<times> entry) list"

record cache =
  userData :: jsmap
  mediaData :: jsmap
  searchResults :: jsmap

record plugin =
  cache :: cache
  cacheTimeout :: int
  accessToken :: string

text \<open>The constructor of \<open>ZoroPlugin\<close>: three empty maps, four minutes of default TTL.\<close>

definition new_plugin :: "string \<Rightarrow> plugin" where
  "new_plugin token =
     \<lparr>cache = \<lparr>userData = [], mediaData = [], searchResults = []\<rparr>,
      cacheTimeout = 4 * 60 * 1000, accessToken = token\<rparr>"

text \<open>
  \<open>this.cache[type]\<close>: one of the three maps, \<open>undefined\<close>, or a property inherited from
  \<open>Object.prototype\<close>, which is truthy and has neither \<open>get\<close> nor \<open>set\<close>.
\<close>

datatype slot = Slot_map jsmap | Slot_undefined | Slot_inherited

definition Object_prototype_names :: "string list" where
  "Object_prototype_names =
     [''constructor'', ''__defineGetter__'', ''__defineSetter__'', ''hasOwnProperty'',
      ''__lookupGetter__'', ''__lookupSetter__'', ''isPrototypeOf'',
      ''propertyIsEnumerable'', ''toString'', ''valueOf'', ''__proto__'',
      ''toLocaleString'']"

definition cache_slot :: "cache \<Rightarrow> string \<Rightarrow> slot" where
  "cache_slot c type =
     (if type = ''userData'' then Slot_map (userData c)
      else if type = ''mediaData'' then Slot_map (mediaData c)
      else if type = ''searchResults'' then Slot_map (searchResults c)
      else if type \<in> set Object_prototype_names then Slot_inherited
      else Slot_undefined)"

text \<open>The map held in \<open>this.cache[type]\<close> after it was mutated in place.\<close>

definition cache_put :: "cache \<Rightarrow> string \<Rightarrow> jsmap \<Rightarrow> cache" where
  "cache_put c type m =
     (if type = ''userData'' then c\<lparr>userData := m\<rparr>
      else if type = ''mediaData'' then c\<lparr>mediaData := m\<rparr>
      else if type = ''searchResults'' then c\<lparr>searchResults := m\<rparr>
      else c)"

text \<open>
  A TTL is a number of milliseconds, or a value that is not a number: compared with an
  age by \<open><\<close> or \<open>>\<close> it is converted to \<open>NaN\<close>, and the comparison is false.
\<close>

datatype ttl = Ttl int | Ttl_NaN

definition older_than :: "int \<Rightarrow> ttl \<Rightarrow> bool" where
  "older_than age t = (case t of Ttl n \<Rightarrow> age > n | Ttl_NaN \<Rightarrow> False)"

definition younger_than :: "int \<Rightarrow> ttl \<Rightarrow> bool" where
  "younger_than age t = (case t of Ttl n \<Rightarrow> age < n | Ttl_NaN \<Rightarrow> False)"

text \<open>
  \<open>getFromCache(type, key, customTtl)\<close> at the time \<open>now\<close> (\<open>Date.now()\<close>); \<open>customTtl\<close> is
  \<open>None\<close> when the argument is \<open>null\<close> or left out. The result \<open>None\<close> is \<open>null\<close> (or
  the \<open>undefined\<close> value of an entry without one).
\<close>

definition getFromCache ::
  "plugin \<Rightarrow> int \<Rightarrow> string \<Rightarrow> string \<Rightarrow> ttl option \<Rightarrow> exn + (json option \<times> plugin)" where
  "getFromCache p now type key customTtl =
     (case cache_slot (cache p) type of
        Slot_undefined \<Rightarrow> Inr (None, p)
      | Slot_inherited \<Rightarrow> Inl TypeError
      | Slot_map cacheMap \<Rightarrow>
          (case map_of cacheMap key of
             None \<Rightarrow> Inr (None, p)
           | Some entry \<Rightarrow>
               (let ttl = (case customTtl of Some t \<Rightarrow> t | None \<Rightarrow> Ttl (cacheTimeout p));
                    age = now - timestamp entry
                in if older_than age ttl
                   then Inr (None, p\<lparr>cache := cache_put (cache p) type (AList.delete key cacheMap)\<rparr>)
                   else Inr (val entry, p))))"

definition setToCache :: "plugin \<Rightarrow> int \<Rightarrow> string \<Rightarrow> string \<Rightarrow> json \<Rightarrow> exn + plugin" where
  "setToCache p now type key v =
     (case cache_slot (cache p) type of
        Slot_undefined \<Rightarrow> Inr p
      | Slot_inherited \<Rightarrow> Inl TypeError
      | Slot_map cacheMap \<Rightarrow>
          Inr (p\<lparr>cache := cache_put (cache p) type
                  (AList.update key \<lparr>val = Some v, timestamp = now\<rparr> cacheMap)\<rparr>))"

subsection \<open>Invalidation\<close>

text \<open>
  The test \<open>parsed[k] === id\<close> for the number \<open>mid\<close>. Reading a property of \<open>null\<close> throws;
  an array and a string have a numeric \<open>length\<close> and indexed elements; every inherited
  property is a function or an object and never equal to a number.
\<close>

definition prop_is :: "json \<Rightarrow> string \<Rightarrow> int \<Rightarrow> exn + bool" where
  "prop_is parsed k mid =
     (case parsed of
        JNull \<Rightarrow> Inl TypeError
      | JObj ps \<Rightarrow> Inr (obj_get ps k = Some (JNum mid))
      | JArr vs \<Rightarrow>
          Inr ((k = ''length'' \<and> mid = int (length vs))
               \<or> (case array_index k of
                     Some i \<Rightarrow> i < length vs \<and> vs ! i = JNum mid
                   | None \<Rightarrow> False))
      | JStr s \<Rightarrow> Inr (k = ''length'' \<and> mid = int (length s))
      | _ \<Rightarrow> Inr False)"

text \<open>\<open>exactKeys.some(k => parsed[k] === id)\<close>.\<close>

fun some_prop_is :: "json \<Rightarrow> int \<Rightarrow> string list \<Rightarrow> exn + bool" where
  "some_prop_is parsed mid [] = Inr False"
| "some_prop_is parsed mid (k # ks) =
     (case prop_is parsed k mid of
        Inl e \<Rightarrow> Inl e
      | Inr True \<Rightarrow> Inr True
      | Inr False \<Rightarrow> some_prop_is parsed mid ks)"

text \<open>
  The body of the loop of \<open>prune\<close> for one key: whether the key is deleted. A key that
  is not JSON, or whose test throws, is skipped by the \<open>catch\<close>. Where the key is JSON
  outside the model, or \<open>mid\<close> is not an exact number, the model does not compute the
  test: its outcome is the parameter \<open>beyond\<close>, which the properties below leave
  arbitrary.
\<close>

definition key_cleared :: "(string \<Rightarrow> bool) \<Rightarrow> int \<Rightarrow> string list \<Rightarrow> string \<Rightarrow> bool" where
  "key_cleared beyond mid exactKeys key =
     (case JSON_parse key of
        Syntax_error \<Rightarrow> False
      | Outside \<Rightarrow> beyond key
      | Value parsed \<Rightarrow>
          if exact (JNum mid) then
            (case some_prop_is parsed mid exactKeys of
               Inl e \<Rightarrow> False
             | Inr b \<Rightarrow> b)
          else beyond key)"

text \<open>The loop of \<open>prune\<close> over \<open>Array.from(map.keys())\<close>, with the count it returns.\<close>

fun prune_loop ::
  "(string \<Rightarrow> bool) \<Rightarrow> int \<Rightarrow> string list \<Rightarrow> string list \<Rightarrow> jsmap \<Rightarrow> nat \<Rightarrow> jsmap \<times> nat" where
  "prune_loop beyond mid exactKeys [] m cleared = (m, cleared)"
| "prune_loop beyond mid exactKeys (key # keys) m cleared =
     (if key_cleared beyond mid exactKeys key
      then prune_loop beyond mid exactKeys keys (AList.delete key m) (cleared + 1)
      else prune_loop beyond mid exactKeys keys m cleared)"

definition prune :: "(string \<Rightarrow> bool) \<Rightarrow> int \<Rightarrow> jsmap \<Rightarrow> string list \<Rightarrow> jsmap \<times> nat" where
  "prune beyond mid m exactKeys = prune_loop beyond mid exactKeys (map fst m) m 0"

definition clearListCaches :: "plugin \<Rightarrow> plugin" where
  "clearListCaches p = p\<lparr>cache := (cache p)\<lparr>userData := []\<rparr>\<rparr>"

definition clearCacheForMedia :: "(string \<Rightarrow> bool) \<Rightarrow> plugin \<Rightarrow> json \<Rightarrow> plugin" where
  "clearCacheForMedia beyond p mediaId =
     (case parseInt mediaId of
        None \<Rightarrow> p
      | Some mid \<Rightarrow>
          if mid = 0 then p
          else
            (let (m1, n1) = prune beyond mid (mediaData (cache p)) [''mediaId''];
                 (m2, n2) = prune beyond mid (userData (cache p)) [''mediaId''];
                 (m3, n3) = prune beyond mid (searchResults (cache p)) [''mediaId''];
                 totalCleared = n1 + n2 + n3
             in clearListCaches
                  (p\<lparr>cache := \<lparr>userData = m2, mediaData = m1, searchResults = m3\<rparr>\<rparr>)))"


text \<open>
  The table of TTLs that \<open>fetchZoroData\<close>, \<open>pruneCache\<close> and \<open>loadCacheFromStorage\<close>
  each write out, and their \<open>ttlMap[type] || this.cacheTimeout\<close>. The table is an object
  literal: under a name of \<open>Object.prototype\<close> it gives the inherited function or object,
  which is truthy and not a number.
\<close>

definition ttlMap :: "string \<Rightarrow> ttl option" where
  "ttlMap type =
     (if type = ''userData'' then Some (Ttl (30 * 60 * 1000))
      else if type = ''mediaData'' then Some (Ttl (10 * 60 * 1000))
      else if type = ''searchResults'' then Some (Ttl (2 * 60 * 1000))
      else if type \<in> set Object_prototype_names then Some Ttl_NaN
      else None)"

definition cacheTtl_of :: "plugin \<Rightarrow> string \<Rightarrow> ttl" where
  "cacheTtl_of p cacheType =
     (case ttlMap cacheType of
        Some (Ttl n) \<Rightarrow> if n \<noteq> 0 then Ttl n else Ttl (cacheTimeout p)
      | Some Ttl_NaN \<Rightarrow> Ttl_NaN
      | None \<Rightarrow> Ttl (cacheTimeout p))"

subsection \<open>Persistence\<close>

text \<open>
  \<open>saveCacheToStorage()\<close> writes, under one key of \<open>localStorage\<close>, the JSON text of an
  object that maps each category to the array of the \<open>[key, entry]\<close> pairs of its map.
  \<open>room\<close> says whether \<open>localStorage.setItem\<close> succeeds; its failure is caught and leaves
  the stored text as it was.
\<close>

definition entry_json :: "entry \<Rightarrow> json" where
  "entry_json e =
     JObj ((case val e of Some v \<Rightarrow> [(''value'', v)] | None \<Rightarrow> [])
           @ [(''timestamp'', JNum (timestamp e))])"

definition Map_entries :: "jsmap \<Rightarrow> json" where
  "Map_entries m = JArr (map (\<lambda>(key, e). JArr [JStr key, entry_json e]) m)"

definition cache_entries :: "cache \<Rightarrow> (string \<times> jsmap) list" where
  "cache_entries c =
     [(''userData'', userData c), (''mediaData'', mediaData c),
      (''searchResults'', searchResults c)]"

definition cacheData_of :: "plugin \<Rightarrow> json" where
  "cacheData_of p =
     JObj (foldl (\<lambda>cacheData (type, m). obj_assign type (Map_entries m) cacheData) []
             (cache_entries (cache p)))"

definition saveCacheToStorage :: "plugin \<Rightarrow> bool \<Rightarrow> string option \<Rightarrow> string option" where
  "saveCacheToStorage p room storage =
     (if room then Some (stringify (cacheData_of p)) else storage)"

text \<open>
  \<open>loadCacheFromStorage()\<close>. \<open>Object.entries\<close> of the parsed text throws on \<open>null\<close>, gives
  the indexed elements of an array or a string and nothing for a number or a boolean.
\<close>

definition Object_entries :: "json \<Rightarrow> exn + (string \<times> json) list" where
  "Object_entries v =
     (case v of
        JNull \<Rightarrow> Inl TypeError
      | JObj ps \<Rightarrow> Inr ps
      | JArr vs \<Rightarrow> Inr (zip (map digits [0 ..< length vs]) vs)
      | JStr s \<Rightarrow> Inr (zip (map digits [0 ..< length s]) (map (\<lambda>c. JStr [c]) s))
      | _ \<Rightarrow> Inr [])"

text \<open>
  The parameter pattern \<open>[key, value]\<close> of the callback: its argument must be iterable
  (an array or a string), and a missing element is \<open>undefined\<close>.
\<close>

definition destructure :: "json \<Rightarrow> exn + (json option \<times> json option)" where
  "destructure el =
     (case el of
        JArr xs \<Rightarrow>
          Inr (if 0 < length xs then Some (xs ! 0) else None,
               if 1 < length xs then Some (xs ! 1) else None)
      | JStr s \<Rightarrow>
          Inr (if 0 < length s then Some (JStr [s ! 0]) else None,
               if 1 < length s then Some (JStr [s ! 1]) else None)
      | _ \<Rightarrow> Inl TypeError)"

text \<open>
  \<open>value.timestamp\<close> where \<open>typeof value.timestamp === 'number'\<close>. A time is a number
  of milliseconds; an entry with a fraction of a millisecond is not one that the record
  \<open>entry\<close> holds.
\<close>

datatype stamp = Stamp int | Stamp_fraction | No_stamp

definition timestamp_of :: "json \<Rightarrow> stamp" where
  "timestamp_of v =
     (case v of
        JObj ps \<Rightarrow>
          (case obj_get ps ''timestamp'' of
             Some (JNum t) \<Rightarrow> Stamp t
           | Some (JDec m d) \<Rightarrow> Stamp_fraction
           | _ \<Rightarrow> No_stamp)
      | _ \<Rightarrow> No_stamp)"

definition value_of :: "json \<Rightarrow> json option" where
  "value_of v = (case v of JObj ps \<Rightarrow> obj_get ps ''value'' | _ \<Rightarrow> None)"

record load_state =
  loaded_plugin :: plugin
  loadedCount :: nat
  expiredCount :: nat

text \<open>
  What ends the loading before its last entry: an exception, which the \<open>catch\<close> of
  \<open>loadCacheFromStorage\<close> handles, or a step that the model does not compute.
\<close>

datatype halt = Thrown exn | Unmodelled

text \<open>
  \<open>this.cache[type].set(key, value)\<close>. The maps of the model are keyed by strings; a
  persisted key that is not a string is not a key that they hold.
\<close>

definition cache_set :: "plugin \<Rightarrow> string \<Rightarrow> json option \<Rightarrow> json \<Rightarrow> int \<Rightarrow> halt + plugin" where
  "cache_set p type key v t =
     (case cache_slot (cache p) type of
        Slot_map m \<Rightarrow>
          (case key of
             Some (JStr k) \<Rightarrow>
               Inr (p\<lparr>cache := cache_put (cache p) type
                       (AList.update k \<lparr>val = value_of v, timestamp = t\<rparr> m)\<rparr>)
           | _ \<Rightarrow> Inl Unmodelled)
      | _ \<Rightarrow> Inl (Thrown TypeError))"

text \<open>The callback of \<open>entries.forEach\<close>, at the time \<open>now\<close>.\<close>

definition load_entry :: "int \<Rightarrow> string \<Rightarrow> ttl \<Rightarrow> load_state \<Rightarrow> json \<Rightarrow> halt + load_state" where
  "load_entry now type ttl st el =
     (case destructure el of
        Inl e \<Rightarrow> Inl (Thrown e)
      | Inr (key, value) \<Rightarrow>
          (case value of
             None \<Rightarrow> Inr st
           | Some v \<Rightarrow>
               if \<not> truthy v then Inr st
               else
                 (case timestamp_of v of
                    No_stamp \<Rightarrow> Inr st
                  | Stamp_fraction \<Rightarrow> Inl Unmodelled
                  | Stamp t \<Rightarrow>
                      (let age = now - t
                       in if younger_than age ttl then
                            (case cache_set (loaded_plugin st) type key v t of
                               Inl h \<Rightarrow> Inl h
                             | Inr p' \<Rightarrow>
                                 Inr (st\<lparr>loaded_plugin := p', loadedCount := loadedCount st + 1\<rparr>))
                          else Inr (st\<lparr>expiredCount := expiredCount st + 1\<rparr>)))))"

text \<open>\<open>forEach\<close>: the state reached, and what ended the loop early, if anything.\<close>

fun load_entries ::
  "int \<Rightarrow> string \<Rightarrow> ttl \<Rightarrow> json list \<Rightarrow> load_state \<Rightarrow> load_state \<times> halt option" where
  "load_entries now type ttl [] st = (st, None)"
| "load_entries now type ttl (el # els) st =
     (case load_entry now type ttl st el of
        Inl h \<Rightarrow> (st, Some h)
      | Inr st' \<Rightarrow> load_entries now type ttl els st')"

text \<open>The loop over \<open>Object.entries(cacheData)\<close>.\<close>

fun load_types :: "int \<Rightarrow> (string \<times> json) list \<Rightarrow> load_state \<Rightarrow> load_state \<times> halt option" where
  "load_types now [] st = (st, None)"
| "load_types now ((type, entries) # rest) st =
     (case entries of
        JArr els \<Rightarrow>
          if cache_slot (cache (loaded_plugin st)) type = Slot_undefined
          then load_types now rest st
          else
            (let ttl = cacheTtl_of (loaded_plugin st) type
             in case load_entries now type ttl els st of
                  (st', Some h) \<Rightarrow> (st', Some h)
                | (st', None) \<Rightarrow> load_types now rest st')
      | _ \<Rightarrow> load_types now rest st)"

text \<open>The body of the \<open>try\<close> block after \<open>saved\<close> was found.\<close>

definition load_try :: "plugin \<Rightarrow> int \<Rightarrow> string \<Rightarrow> load_state \<times> halt option" where
  "load_try p now saved =
     (let st = \<lparr>loaded_plugin = p, loadedCount = 0, expiredCount = 0\<rparr>
      in case JSON_parse saved of
           Syntax_error \<Rightarrow> (st, Some (Thrown SyntaxError))
         | Outside \<Rightarrow> (st, Some Unmodelled)
         | Value cacheData \<Rightarrow>
             (case Object_entries cacheData of
                Inl e \<Rightarrow> (st, Some (Thrown e))
              | Inr props \<Rightarrow> load_types now props st))"

text \<open>
  What the call leaves behind: the plugin, the stored text, and the line it logged.
  The \<open>catch\<close> warns and removes the stored text; the whole body is inside the \<open>try\<close>,
  so the function itself returns in every case. Where loading leaves the model, what
  the call leaves behind is the parameter \<open>beyond\<close>, which the properties below leave
  arbitrary.
\<close>

datatype load_log = No_saved_data | Loaded nat nat | Load_failed exn

record load_result =
  plugin_after :: plugin
  storage_after :: "string option"
  logged :: load_log

definition loadCacheFromStorage ::
  "(string \<Rightarrow> load_result) \<Rightarrow> plugin \<Rightarrow> int \<Rightarrow> string option \<Rightarrow> exn + load_result" where
  "loadCacheFromStorage beyond p now storage =
     (case storage of
        None \<Rightarrow> Inr \<lparr>plugin_after = p, storage_after = storage, logged = No_saved_data\<rparr>
      | Some saved \<Rightarrow>
          if saved = [] then
            Inr \<lparr>plugin_after = p, storage_after = storage, logged = No_saved_data\<rparr>
          else
            (case load_try p now saved of
               (st, None) \<Rightarrow>
                 Inr \<lparr>plugin_after = loaded_plugin st, storage_after = storage,
                      logged = Loaded (loadedCount st) (expiredCount st)\<rparr>
             | (st, Some (Thrown e)) \<Rightarrow>
                 Inr \<lparr>plugin_after = loaded_plugin st, storage_after = None,
                      logged = Load_failed e\<rparr>
             | (st, Some Unmodelled) \<Rightarrow> Inr (beyond saved)))"

text \<open>
  The entries of a map that are younger than \<open>ttl\<close> at the time \<open>now\<close>, and a cache as the
  plugin builds it: the keys of a map are distinct, a stored value is a value as
  \<open>JSON.parse\<close> gives it (the \<open>response.json\<close> of a request), and a timestamp is a time
  that \<open>Date.now()\<close> gave.
\<close>

definition fresh :: "int \<Rightarrow> int \<Rightarrow> jsmap \<Rightarrow> jsmap" where
  "fresh now ttl m = filter (\<lambda>(key, e). now - timestamp e < ttl) m"

definition map_ok :: "jsmap \<Rightarrow> bool" where
  "map_ok m \<longleftrightarrow>
     distinct (map fst m)
     \<and> list_all (\<lambda>(key, e). (case val e of Some v \<Rightarrow> reify v = v \<and> exact v | None \<Rightarrow> True)
                              \<and> exact (JNum (timestamp e))) m"

definition cache_ok :: "cache \<Rightarrow> bool" where
  "cache_ok c \<longleftrightarrow> map_ok (userData c) \<and> map_ok (mediaData c) \<and> map_ok (searchResults c)"

text \<open>The plugin that hydration of a new plugin from a saved cache \<open>c\<close> should give.\<close>

definition hydrated :: "string \<Rightarrow> int \<Rightarrow> cache \<Rightarrow> plugin" where
  "hydrated token now c =
     (new_plugin token)\<lparr>cache :=
        \<lparr>userData = fresh now 1800000 (userData c),
         mediaData = fresh now 600000 (mediaData c),
         searchResults = fresh now 120000 (searchResults c)\<rparr>\<rparr>"

section \<open>\<open>Api\<close>: cache keys and fetching\<close>

type_synonym config = "(string \<times> json) list"

text \<open>
  \<open>createCacheKey(config)\<close>: the names of \<open>config\<close> are sorted (\<open>Array.sort\<close> compares
  strings by code units), copied in that order into a fresh object, and the object is
  serialised.
\<close>

definition Object_keys :: "config \<Rightarrow> string list" where
  "Object_keys config = map fst config"

definition copy_key :: "config \<Rightarrow> config \<Rightarrow> string \<Rightarrow> config" where
  "copy_key config sortedConfig key =
     (case obj_get config key of
        Some v \<Rightarrow> obj_assign key v sortedConfig
      | None \<Rightarrow> sortedConfig)"

definition createCacheKey :: "config \<Rightarrow> string" where
  "createCacheKey config =
     stringify (JObj (foldl (copy_key config) [] (sort (Object_keys config))))"

text \<open>
  The answer of the GraphQL endpoint (\<open>response.json\<close>): the messages of its \<open>errors\<close>
  (none when the property is absent) and its \<open>data\<close>.
\<close>

record graphql =
  errors :: "string option list"
  data :: "json option"

text \<open>
  What one call of \<open>fetchZoroData\<close> meets outside the plugin: the clock at the probe of
  the cache, the clock at the store, the outcome of the awaited steps (token refresh,
  request through the queue), which either throw or give \<open>response.json\<close>, and what
  other code does to the plugin while the call is suspended at an \<open>await\<close>.
\<close>

record env =
  now_read :: int
  now_write :: int
  fetched :: "exn + graphql option"
  meanwhile :: "plugin \<Rightarrow> plugin"

definition cacheType_of :: "config \<Rightarrow> string" where
  "cacheType_of config =
     (if obj_get config ''type'' = Some (JStr ''stats'') then ''userData''
      else if obj_get config ''type'' = Some (JStr ''single'') then ''mediaData''
      else if obj_get config ''type'' = Some (JStr ''search'') then ''searchResults''
      else ''userData'')"

definition nocache :: "config \<Rightarrow> bool" where
  "nocache config = (case obj_get config ''nocache'' of Some v \<Rightarrow> truthy v | None \<Rightarrow> False)"

fun str_includes :: "string \<Rightarrow> string \<Rightarrow> bool" where
  "str_includes [] sub = (sub = [])"
| "str_includes (c # cs) sub = (take (length sub) (c # cs) = sub \<or> str_includes cs sub)"

text \<open>
  The error thrown for a non-empty \<open>errors\<close> array. The two messages for a private list
  start with a pictograph in the source, which is left out here.
\<close>

definition errors_exn :: "plugin \<Rightarrow> string option \<Rightarrow> exn" where
  "errors_exn p message =
     (let isPrivate =
        (case message of
           Some m \<Rightarrow> str_includes m ''Private'' \<or> str_includes m ''permission''
         | None \<Rightarrow> False)
      in if isPrivate then
           (if accessToken p \<noteq> []
            then Error ''List is private and this token has no permission.''
            else Error ''List is private. Please authenticate to access it.'')
         else
           (case message of
              Some m \<Rightarrow> if m \<noteq> [] then Error m
                        else Error ''AniList returned an unknown error.''
            | None \<Rightarrow> Error ''AniList returned an unknown error.''))"

text \<open>
  The part of \<open>fetchZoroData\<close> after the awaited steps, on the plugin \<open>p\<close> as it is
  then.
\<close>

definition fetch_fresh ::
  "plugin \<Rightarrow> env \<Rightarrow> string \<Rightarrow> string \<Rightarrow> (exn + json) \<times> plugin" where
  "fetch_fresh p e cacheType cacheKey =
     (case fetched e of
        Inl err \<Rightarrow> (Inl err, p)
      | Inr None \<Rightarrow> (Inl (Error ''Empty response from AniList.''), p)
      | Inr (Some result) \<Rightarrow>
          (case errors result of
             firstError # rest \<Rightarrow> (Inl (errors_exn p firstError), p)
           | [] \<Rightarrow>
               (case data result of
                  None \<Rightarrow> (Inl (Error ''AniList returned no data.''), p)
                | Some d \<Rightarrow>
                    if \<not> truthy d then (Inl (Error ''AniList returned no data.''), p)
                    else
                      (case setToCache p (now_write e) cacheType cacheKey d of
                         Inl err \<Rightarrow> (Inl err, p)
                       | Inr p' \<Rightarrow> (Inr d, p')))))"

definition fetchZoroData :: "plugin \<Rightarrow> env \<Rightarrow> config \<Rightarrow> (exn + json) \<times> plugin" where
  "fetchZoroData p e config =
     (let cacheKey = createCacheKey config;
          cacheType = cacheType_of config;
          cacheTtl = cacheTtl_of p cacheType
      in if nocache config then fetch_fresh (meanwhile e p) e cacheType cacheKey
         else
           (case getFromCache p (now_read e) cacheType cacheKey (Some cacheTtl) of
              Inl err \<Rightarrow> (Inl err, p)
            | Inr (cached, p') \<Rightarrow>
                (case cached of
                   Some c \<Rightarrow> if truthy c then (Inr c, p')
                             else fetch_fresh (meanwhile e p') e cacheType cacheKey
                 | None \<Rightarrow> fetch_fresh (meanwhile e p') e cacheType cacheKey)))"

section \<open>\<open>RequestQueue\<close>\<close>

text \<open>
  The queue runs on the event loop of the host. Its state is the object's own fields
  (\<open>queue\<close>, \<open>delay\<close>, \<open>isProcessing\<close>) together with what the event loop holds for it:
  the operations whose \<open>await requestFn()\<close> is pending (\<open>running\<close>), the deadlines of the
  pending \<open>setTimeout\<close> callbacks (\<open>timers\<close>) and the clock. A task is named by the
  number of the \<open>add\<close> call that made it, which also names the promise that \<open>add\<close>
  returned; \<open>settled\<close> records which promise was settled with what, and \<open>trace\<close> logs
  the start and the end of every operation with its time, the most recent event first.
\<close>

datatype outcome = Resolved json | Rejected exn

datatype event = Started nat nat | Settled nat nat

record request_queue =
  queue :: "nat list"
  delay :: nat
  isProcessing :: bool
  showLoadingIcon :: bool
  loader :: bool
  next_id :: nat
  running :: "nat list"
  timers :: "nat list"
  clock :: nat
  settled :: "(nat \<times> outcome) list"
  trace :: "event list"

definition new_queue :: "bool \<Rightarrow> request_queue" where
  "new_queue icon =
     \<lparr>queue = [], delay = 700, isProcessing = False, showLoadingIcon = icon, loader = False,
      next_id = 0, running = [], timers = [], clock = 0, settled = [], trace = []\<rparr>"

definition showGlobalLoader :: "request_queue \<Rightarrow> request_queue" where
  "showGlobalLoader s = (if \<not> showLoadingIcon s then s else s\<lparr>loader := True\<rparr>)"

definition hideGlobalLoader :: "request_queue \<Rightarrow> request_queue" where
  "hideGlobalLoader s = s\<lparr>loader := False\<rparr>"

text \<open>
  \<open>process()\<close> up to its \<open>await\<close>: the head of the queue is taken and its \<open>requestFn\<close> is
  called, which starts the operation.
\<close>

definition process :: "request_queue \<Rightarrow> request_queue" where
  "process s =
     (if isProcessing s \<or> queue s = [] then
        (if queue s = [] then hideGlobalLoader s else s)
      else
        (let s1 = s\<lparr>isProcessing := True\<rparr>;
             s2 = (if length (queue s1) = 1 then showGlobalLoader s1 else s1);
             task = hd (queue s2);
             s3 = s2\<lparr>queue := tl (queue s2)\<rparr>
         in s3\<lparr>running := running s3 @ [task],
                trace := Started task (clock s3) # trace s3\<rparr>))"

text \<open>\<open>add(requestFn)\<close>: the executor of the new promise pushes the task and calls \<open>process\<close>.\<close>

definition add :: "request_queue \<Rightarrow> request_queue" where
  "add s = process (s\<lparr>queue := queue s @ [next_id s], next_id := Suc (next_id s)\<rparr>)"

text \<open>
  The rest of \<open>process()\<close>, run when the awaited operation of \<open>task\<close> settles: \<open>resolve\<close> or
  \<open>reject\<close> of that task is called with the outcome, and \<open>finally\<close> arms the timer.
\<close>

definition settle :: "nat \<Rightarrow> outcome \<Rightarrow> request_queue \<Rightarrow> request_queue" where
  "settle task result s =
     s\<lparr>running := remove1 task (running s),
       settled := settled s @ [(task, result)],
       trace := Settled task (clock s) # trace s,
       timers := timers s @ [clock s + delay s]\<rparr>"

text \<open>The callback given to \<open>setTimeout\<close>.\<close>

definition timeout_callback :: "request_queue \<Rightarrow> request_queue" where
  "timeout_callback s = process (s\<lparr>isProcessing := False\<rparr>)"

text \<open>
  What can happen next: a caller submits a task; the operation of a running task settles,
  with a result or an error; a timer whose deadline has passed fires; time passes. A
  step that is not possible in a state gives \<open>None\<close>.
\<close>

datatype action = Add | Settle nat outcome | Fire | Tick nat

fun step :: "action \<Rightarrow> request_queue \<Rightarrow> request_queue option" where
  "step Add s = Some (add s)"
| "step (Settle task result) s =
     (if task \<in> set (running s) then Some (settle task result s) else None)"
| "step Fire s =
     (case filter (\<lambda>d. d \<le> clock s) (timers s) of
        [] \<Rightarrow> None
      | d # ds \<Rightarrow> Some (timeout_callback (s\<lparr>timers := remove1 d (timers s)\<rparr>)))"
| "step (Tick n) s = Some (s\<lparr>clock := clock s + n\<rparr>)"

fun run :: "action list \<Rightarrow> request_queue \<Rightarrow> request_queue option" where
  "run [] s = Some s"
| "run (a # as) s = (case step a s of None \<Rightarrow> None | Some s' \<Rightarrow> run as s')"

text \<open>
  The order the specification asks of the log (most recent event first): the first
  operation started is task 0, an operation ends before the next event, and the
  operation started after the end of task \<open>j\<close> is task \<open>j + 1\<close>.
\<close>

fun in_order :: "event list \<Rightarrow> bool" where
  "in_order [] = True"
| "in_order [Started i t] = (i = 0)"
| "in_order (Settled i t # Started j t' # tr) = (i = j \<and> in_order (Started j t' # tr))"
| "in_order (Started i t # Settled j t' # tr) = (i = Suc j \<and> in_order (Settled j t' # tr))"
| "in_order tr = False"

text \<open>Every start that follows an end in the log comes at least \<open>d\<close> after it.\<close>

fun spaced :: "nat \<Rightarrow> event list \<Rightarrow> bool" where
  "spaced d (Started i t # Settled j t' # tr) = (t' + d \<le> t \<and> spaced d (Settled j t' # tr))"
| "spaced d (e # tr) = spaced d tr"
| "spaced d [] = True"

text \<open>
  A schedule that lets every pending task finish: the running operation settles with
  the outcome \<open>f\<close> gives it, and for each queued task the delay passes, the timer fires
  and the operation settles with its outcome.
\<close>

definition drain :: "(nat \<Rightarrow> outcome) \<Rightarrow> request_queue \<Rightarrow> action list" where
  "drain f s =
     (case running s of
        i # r \<Rightarrow> [Settle i (f i), Tick (delay s), Fire]
      | [] \<Rightarrow> (if timers s = [] then [] else [Tick (delay s), Fire]))
     @ concat (map (\<lambda>j. [Settle j (f j), Tick (delay s), Fire]) (queue s))"

text \<open>
  The states the queue can be in. With an empty log it is idle; after a start the
  operation of that task is the only one running and no timer is pending; after an end
  nothing runs, and either the timer armed at the end is pending or it has fired on an
  empty queue. The tasks still queued are those submitted and not yet started.
\<close>

definition started :: "event list \<Rightarrow> nat" where
  "started tr = (case tr of [] \<Rightarrow> 0 | Started i t # r \<Rightarrow> Suc i | Settled i t # r \<Rightarrow> Suc i)"

definition ended :: "event list \<Rightarrow> nat" where
  "ended tr = (case tr of [] \<Rightarrow> 0 | Started i t # r \<Rightarrow> i | Settled i t # r \<Rightarrow> Suc i)"

definition last_time :: "event list \<Rightarrow> nat" where
  "last_time tr = (case tr of [] \<Rightarrow> 0 | Started i t # r \<Rightarrow> t | Settled i t # r \<Rightarrow> t)"

definition queue_inv :: "request_queue \<Rightarrow> bool" where
  "queue_inv s \<longleftrightarrow>
     in_order (trace s) \<and> spaced (delay s) (trace s) \<and> last_time (trace s) \<le> clock s
     \<and> queue s = [started (trace s) ..< next_id s] \<and> started (trace s) \<le> next_id s
     \<and> map fst (settled s) = [0 ..< ended (trace s)]
     \<and> (case trace s of
           [] \<Rightarrow> \<not> isProcessing s \<and> running s = [] \<and> timers s = [] \<and> queue s = []
         | Started i t # r \<Rightarrow> isProcessing s \<and> running s = [i] \<and> timers s = []
         | Settled i t # r \<Rightarrow>
             running s = [] \<and>
             (if isProcessing s then timers s = [t + delay s]
              else timers s = [] \<and> queue s = [] \<and> t + delay s \<le> clock s))"

section \<open>Reading back what \<open>JSON.stringify\<close> wrote\<close>

lemma is_digit_digit_char: "n < 10 \<Longrightarrow> is_digit (digit_char n)"
  by (simp add: is_digit_def digit_char_def)

lemma digit_val_digit_char: "n < 10 \<Longrightarrow> digit_val (digit_char n) = n"
  by (simp add: digit_val_def digit_char_def)

lemma digits_not_Nil: "digits n \<noteq> []"
  by (subst digits.simps) simp

lemma digits_all_digit: "list_all is_digit (digits n)"
proof (induction n rule: digits.induct)
  case (1 n)
  show ?case
    by (subst digits.simps) (use 1 in \<open>auto simp: is_digit_digit_char\<close>)
qed

lemma nat_of_digits_snoc: "nat_of_digits (ds @ [c]) = 10 * nat_of_digits ds + digit_val c"
  by (simp add: nat_of_digits_def)

lemma nat_of_digits_digits: "nat_of_digits (digits n) = n"
proof (induction n rule: digits.induct)
  case (1 n)
  show ?case
  proof (cases "n < 10")
    case True
    then show ?thesis
      by (subst digits.simps) (simp add: nat_of_digits_def digit_val_digit_char)
  next
    case False
    then show ?thesis
      by (subst digits.simps) (simp add: nat_of_digits_snoc 1 digit_val_digit_char)
  qed
qed

lemma hd_digits: "hd (digits n) = CHR ''0'' \<Longrightarrow> n = 0"
proof (induction n rule: digits.induct)
  case (1 n)
  show ?case
  proof (cases "n < 10")
    case True
    with 1(2) have "digit_char n = CHR ''0''"
      by (subst (asm) digits.simps) simp
    then have "digit_val (digit_char n) = digit_val (CHR ''0'')" by simp
    then have "n = digit_val (CHR ''0'')"
      by (simp only: digit_val_digit_char [OF True])
    then show ?thesis by (simp add: digit_val_def)
  next
    case False
    with 1(2) have "hd (digits (n div 10)) = CHR ''0''"
      by (subst (asm) digits.simps) (simp add: digits_not_Nil)
    with 1(1) False have "n div 10 = 0" by simp
    with False show ?thesis by simp
  qed
qed

lemma length_digits_0: "length (digits 0) = 1"
  by (subst digits.simps) simp

lemma takeWhile_digits:
  "ends_number r \<Longrightarrow> takeWhile is_digit (digits n @ r) = digits n"
  using digits_all_digit [of n]
  by (cases r) (auto simp: ends_number_def takeWhile_append list_all_iff)

lemma dropWhile_digits:
  "ends_number r \<Longrightarrow> dropWhile is_digit (digits n @ r) = r"
  using digits_all_digit [of n]
  by (cases r) (auto simp: ends_number_def dropWhile_append list_all_iff)

lemma hd_digits_not_minus: "hd (digits n) \<noteq> CHR ''-''"
proof -
  have "is_digit (hd (digits n))"
    using digits_all_digit [of n] digits_not_Nil [of n]
    by (cases "digits n") (auto simp: list_all_iff)
  then show ?thesis by (auto simp: is_digit_def)
qed


lemma is_digit_hd_digits: "is_digit (hd (digits n))"
  using digits_all_digit [of n] digits_not_Nil [of n]
  by (cases "digits n") (auto simp: list_all_iff)

lemma nat_of_digits_append:
  "nat_of_digits (xs @ ys) = nat_of_digits xs * 10 ^ length ys + nat_of_digits ys"
proof (induction ys rule: rev_induct)
  case Nil
  then show ?case by (simp add: nat_of_digits_def)
next
  case (snoc y ys)
  have "nat_of_digits (xs @ ys @ [y]) = 10 * nat_of_digits (xs @ ys) + digit_val y"
    using nat_of_digits_snoc [of "xs @ ys" y] by simp
  then show ?case
    by (simp add: snoc nat_of_digits_snoc algebra_simps)
qed

lemma nat_of_digits_zeros: "nat_of_digits (replicate j CHR ''0'') = 0"
proof (induction j)
  case 0
  then show ?case by (simp add: nat_of_digits_def)
next
  case (Suc j)
  have "replicate (Suc j) CHR ''0'' = replicate j CHR ''0'' @ [CHR ''0'']"
    by (simp add: replicate_append_same)
  then show ?case
    by (simp only: nat_of_digits_snoc Suc) (simp add: digit_val_def)
qed

lemma nat_of_digits_0_Cons: "nat_of_digits (CHR ''0'' # ds) = nat_of_digits ds"
  using nat_of_digits_append [of "[CHR ''0'']" ds]
  by (simp add: nat_of_digits_def digit_val_def)

lemma is_digit_0: "is_digit CHR ''0''"
  by (simp add: is_digit_def)

lemma all_digit_zeros: "list_all is_digit (replicate j CHR ''0'')"
  by (simp add: list_all_iff is_digit_0)

lemma strip_zeros_append: "strip_zeros ds @ replicate (length ds - length (strip_zeros ds)) CHR ''0'' = ds"
proof -
  let ?z = "\<lambda>c. c = CHR ''0''"
  have "takeWhile ?z (rev ds) = replicate (length (takeWhile ?z (rev ds))) CHR ''0''"
    by (rule replicate_length_same [symmetric]) (auto dest: set_takeWhileD)
  moreover have "length (takeWhile ?z (rev ds)) + length (dropWhile ?z (rev ds)) = length ds"
    by (metis length_append length_rev takeWhile_dropWhile_id)
  ultimately have tw: "takeWhile ?z (rev ds) = replicate (length ds - length (strip_zeros ds)) CHR ''0''"
    by (metis add_diff_cancel_right' length_rev strip_zeros_def)
  have "rev ds = takeWhile ?z (rev ds) @ dropWhile ?z (rev ds)"
    by simp
  then have "ds = rev (dropWhile ?z (rev ds)) @ rev (takeWhile ?z (rev ds))"
    by (metis rev_append rev_rev_ident)
  then show ?thesis
    by (simp add: tw strip_zeros_def [symmetric]) 
qed

lemma length_strip_zeros: "length (strip_zeros ds) \<le> length ds"
  by (simp add: strip_zeros_def length_dropWhile_le [of _ "rev ds", simplified])

lemma strip_zeros_all_digit: "list_all is_digit ds \<Longrightarrow> list_all is_digit (strip_zeros ds)"
  by (auto simp: strip_zeros_def list_all_iff dest: set_dropWhileD)

lemma strip_zeros_not_Nil: "ds \<noteq> [] \<Longrightarrow> hd ds \<noteq> CHR ''0'' \<Longrightarrow> strip_zeros ds \<noteq> []"
proof
  assume a: "ds \<noteq> []" "hd ds \<noteq> CHR ''0''" "strip_zeros ds = []"
  from strip_zeros_append [of ds] a(3) have "ds = replicate (length ds) CHR ''0''"
    by simp
  with a(1) have "hd ds = CHR ''0''"
    by (cases ds) (auto simp: Cons_replicate_eq)
  with a(2) show False by simp
qed

lemma hd_strip_zeros: "strip_zeros ds \<noteq> [] \<Longrightarrow> hd (strip_zeros ds) = hd ds"
  using strip_zeros_append [of ds] by (metis hd_append2)

lemma nat_of_digits_strip_zeros:
  "nat_of_digits ds
     = nat_of_digits (strip_zeros ds) * 10 ^ (length ds - length (strip_zeros ds))"
proof -
  have "nat_of_digits ds
      = nat_of_digits (strip_zeros ds @ replicate (length ds - length (strip_zeros ds)) CHR ''0'')"
    by (simp only: strip_zeros_append)
  then show ?thesis
    by (simp only: nat_of_digits_append nat_of_digits_zeros length_replicate add_0_right)
qed

lemma takeWhile_digit_stop:
  "list_all is_digit ds \<Longrightarrow> \<not> is_digit c \<Longrightarrow> takeWhile is_digit (ds @ c # r) = ds"
  by (simp add: takeWhile_append list_all_iff takeWhile_eq_all_conv [THEN iffD2])

lemma dropWhile_digit_stop:
  "list_all is_digit ds \<Longrightarrow> \<not> is_digit c \<Longrightarrow> dropWhile is_digit (ds @ c # r) = c # r"
  by (simp add: dropWhile_append list_all_iff)

lemma takeWhile_digit_end:
  "list_all is_digit ds \<Longrightarrow> ends_number r \<Longrightarrow> takeWhile is_digit (ds @ r) = ds"
  by (cases r) (auto simp: ends_number_def takeWhile_append list_all_iff)

lemma dropWhile_digit_end:
  "list_all is_digit ds \<Longrightarrow> ends_number r \<Longrightarrow> dropWhile is_digit (ds @ r) = r"
  by (cases r) (auto simp: ends_number_def dropWhile_append list_all_iff)

lemma not_digit_point [simp]:
  "\<not> is_digit CHR ''.''" "\<not> is_digit CHR ''e''" "\<not> is_digit CHR ''-''" "\<not> is_digit CHR ''+''"
  by (simp_all add: is_digit_def)

lemma parse_fraction_none:
  "ends_number r \<Longrightarrow> parse_fraction r = Some ([], r)"
  by (cases r) (auto simp: parse_fraction_def ends_number_def)

lemma parse_exponent_none:
  "ends_number r \<Longrightarrow> parse_exponent r = Some (0, r)"
  by (cases r) (auto simp: parse_exponent_def ends_number_def)

lemma parse_exponent_e:
  assumes "ends_number r"
  shows "parse_exponent (CHR ''e'' # (if e < 0 then CHR ''-'' else CHR ''+'') # digits (nat \<bar>e\<bar>) @ r)
           = Some (e, r)"
  using assms
  by (simp add: parse_exponent_def Let_def takeWhile_digit_end dropWhile_digit_end
        digits_all_digit digits_not_Nil nat_of_digits_digits)

text \<open>The reader on the notation of a number, in each of its four forms.\<close>

lemma parse_number_digits_tail:
  assumes ds: "ds \<noteq> []" "list_all is_digit ds" and lead: "hd ds \<noteq> CHR ''0'' \<or> length ds = 1"
    and tail: "parse_fraction t = Some (fp, r1)" "parse_exponent r1 = Some (e, r2)"
       "t = [] \<or> \<not> is_digit (hd t)"
  shows "parse_number (ds @ t)
           = Some (number_of False (nat_of_digits (ds @ fp)) (int (length fp) - e), r2)"
proof -
  have tw: "takeWhile is_digit (ds @ t) = ds" and dw: "dropWhile is_digit (ds @ t) = t"
    using ds(2) tail(3)
    by (cases t; auto simp: takeWhile_append dropWhile_append list_all_iff)+
  have "is_digit (hd ds)" using ds by (cases ds) auto
  then have nm: "hd (ds @ t) \<noteq> CHR ''-''"
    using ds(1) by auto
  show ?thesis
    using ds(1) lead nm tail(1,2)
    by (simp add: parse_number_def Let_def tw dw)
qed

lemma parse_number_pos:
  assumes ds: "ds \<noteq> []" "list_all is_digit ds" and lead: "hd ds \<noteq> CHR ''0'' \<or> n \<le> 0"
    and r: "ends_number r"
  shows "parse_number (show_decimal ds n @ r)
           = Some (number_of False (nat_of_digits ds) (int (length ds) - n), r)"
proof -
  let ?k = "int (length ds)"
  have hdd: "is_digit (hd ds)" using ds by (cases ds) auto
  have k1: "1 \<le> ?k" using ds(1) by (cases ds) simp_all
  consider (pad) "?k \<le> n" "n \<le> 21" | (point) "0 < n" "n < ?k" "n \<le> 21"
    | (small) "- 6 < n" "n \<le> 0" | (expo) "21 < n \<or> n \<le> - 6"
    by linarith
  then show ?thesis
  proof cases
    case pad
    let ?z = "replicate (nat (n - ?k)) CHR ''0''"
    have sd: "show_decimal ds n = ds @ ?z"
      using pad by (simp add: show_decimal_def Let_def)
    have a: "ds @ ?z \<noteq> []" "list_all is_digit (ds @ ?z)"
      using ds by (simp_all add: all_digit_zeros)
    from k1 pad have "\<not> n \<le> 0" by linarith
    with lead have "hd ds \<noteq> CHR ''0''" by blast
    then have b: "hd (ds @ ?z) \<noteq> CHR ''0'' \<or> length (ds @ ?z) = 1"
      using ds(1) by simp
    have c: "r = [] \<or> \<not> is_digit (hd r)"
      using r by (cases r) (auto simp: ends_number_def)
    have "parse_number ((ds @ ?z) @ r)
        = Some (number_of False (nat_of_digits ((ds @ ?z) @ [])) (int (length ([]::string)) - 0), r)"
      by (rule parse_number_digits_tail [OF a b parse_fraction_none [OF r] parse_exponent_none [OF r] c])
    moreover have "number_of False (nat_of_digits (ds @ ?z)) 0
        = number_of False (nat_of_digits ds) (?k - n)"
      using pad by (simp add: number_of_def nat_of_digits_append nat_of_digits_zeros)
    ultimately show ?thesis
      by (simp add: sd)
  next
    case point
    let ?a = "take (nat n) ds" and ?b = "drop (nat n) ds"
    have sd: "show_decimal ds n = ?a @ CHR ''.'' # ?b"
      using point by (simp add: show_decimal_def Let_def)
    have a: "?a \<noteq> []" "list_all is_digit ?a"
      using ds point by (auto simp: list_all_iff dest: in_set_takeD)
    have hda: "hd ?a = hd ds" using point ds(1) by (cases ds) (auto simp: take_Cons')
    have b: "hd ?a \<noteq> CHR ''0'' \<or> length ?a = 1"
      using lead point by (simp add: hda)
    have bd: "?b \<noteq> []" "list_all is_digit ?b"
      using ds point by (auto simp: list_all_iff dest: in_set_dropD)
    have pf: "parse_fraction (CHR ''.'' # ?b @ r) = Some (?b, r)"
      using bd by (simp add: parse_fraction_def Let_def takeWhile_digit_end [OF bd(2) r]
          dropWhile_digit_end [OF bd(2) r])
    have "parse_number (?a @ (CHR ''.'' # ?b @ r))
        = Some (number_of False (nat_of_digits (?a @ ?b)) (int (length ?b) - 0), r)"
      by (rule parse_number_digits_tail [OF a b pf parse_exponent_none [OF r]]) simp
    moreover have "int (length ?b) = ?k - n" using point by simp
    ultimately show ?thesis
      using point by (simp add: sd)
  next
    case small
    let ?z = "replicate (nat (- n)) CHR ''0''"
    have sd: "show_decimal ds n = ''0'' @ CHR ''.'' # (?z @ ds)"
      using small k1 by (simp add: show_decimal_def Let_def)
    have zd: "list_all is_digit (?z @ ds)" "?z @ ds \<noteq> []"
      using ds by (simp_all add: all_digit_zeros)
    have pf: "parse_fraction (CHR ''.'' # (?z @ ds) @ r) = Some (?z @ ds, r)"
      using zd(2) by (simp add: parse_fraction_def Let_def takeWhile_digit_end [OF zd(1) r]
          dropWhile_digit_end [OF zd(1) r] del: append_assoc)
    have "parse_number (''0'' @ (CHR ''.'' # (?z @ ds) @ r))
        = Some (number_of False (nat_of_digits (''0'' @ (?z @ ds))) (int (length (?z @ ds)) - 0), r)"
      by (rule parse_number_digits_tail [OF _ _ _ pf parse_exponent_none [OF r]])
        (simp_all add: is_digit_0)
    moreover have "nat_of_digits (''0'' @ (?z @ ds)) = nat_of_digits ds"
      by (simp add: nat_of_digits_0_Cons nat_of_digits_append nat_of_digits_zeros)
    moreover have "int (length (?z @ ds)) = ?k - n" using small by simp
    ultimately show ?thesis
      by (simp add: sd)
  next
    case expo
    let ?x = "CHR ''e'' # (if n - 1 < 0 then CHR ''-'' else CHR ''+'') # digits (nat \<bar>n - 1\<bar>)"
    obtain c cs where dcs: "ds = c # cs" using ds(1) by (cases ds) auto
    have cs: "list_all is_digit cs" and c: "is_digit c" using ds(2) dcs by auto
    have sd: "show_decimal ds n = [c] @ (if cs = [] then [] else CHR ''.'' # cs) @ ?x"
      using expo by (auto simp: show_decimal_def Let_def show_exponent_def dcs)
    have px: "parse_exponent (?x @ r) = Some (n - 1, r)"
      using parse_exponent_e [OF r, of "n - 1"] by simp
    have pf: "parse_fraction ((if cs = [] then [] else CHR ''.'' # cs) @ ?x @ r) = Some (cs, ?x @ r)"
    proof (cases "cs = []")
      case True
      then show ?thesis by (simp add: parse_fraction_def)
    next
      case False
      then show ?thesis
        using takeWhile_digit_stop [OF cs, of "CHR ''e''"] dropWhile_digit_stop [OF cs, of "CHR ''e''"]
        by (simp add: parse_fraction_def Let_def)
    qed
    have "parse_number ([c] @ ((if cs = [] then [] else CHR ''.'' # cs) @ ?x @ r))
        = Some (number_of False (nat_of_digits ([c] @ cs)) (int (length cs) - (n - 1)), r)"
      by (rule parse_number_digits_tail [OF _ _ _ pf px]) (use c in auto)
    moreover have "int (length cs) - (n - 1) = int (length ds) - n"
      by (simp add: dcs)
    moreover have "[c] @ cs = ds" by (simp add: dcs)
    ultimately show ?thesis
      unfolding sd by (simp del: append.simps)
  qed
qed

lemma show_decimal_Cons:
  assumes "ds \<noteq> []" "list_all is_digit ds"
  shows "\<exists>c cs. show_decimal ds n = c # cs \<and> is_digit c"
proof -
  obtain c cs where dcs: "ds = c # cs" using assms(1) by (cases ds) auto
  with assms(2) have c: "is_digit c" by simp
  show ?thesis
    using c by (auto simp: show_decimal_def Let_def show_exponent_def dcs is_digit_0 take_Cons')
qed

lemma parse_number_neg:
  assumes ds: "ds \<noteq> []" "list_all is_digit ds" and lead: "hd ds \<noteq> CHR ''0'' \<or> n \<le> 0"
    and r: "ends_number r"
  shows "parse_number (CHR ''-'' # show_decimal ds n @ r)
           = Some (number_of True (nat_of_digits ds) (int (length ds) - n), r)"
proof -
  obtain c cs where s: "show_decimal ds n = c # cs" and c: "is_digit c"
    using show_decimal_Cons [OF ds] by blast
  from c have nm: "c \<noteq> CHR ''-''" by auto
  from parse_number_pos [OF ds lead r]
  have "parse_number (c # cs @ r) = Some (number_of False (nat_of_digits ds) (int (length ds) - n), r)"
    by (simp add: s)
  then show ?thesis
    using nm
    by (auto simp: parse_number_def Let_def s number_of_def split: option.splits if_splits)
qed

lemma parse_number_show_int:
  assumes "ends_number r"
  shows "parse_number (show_int i @ r) = Some (JNum i, r)"
proof (cases "i = 0")
  case True
  have "parse_number (''0'' @ r) = Some (number_of False (nat_of_digits (''0'' @ [])) (int (length ([]::string)) - 0), r)"
    by (rule parse_number_digits_tail [OF _ _ _ parse_fraction_none [OF assms] parse_exponent_none [OF assms]])
      (use assms in \<open>cases r; auto simp: is_digit_0 ends_number_def\<close>)+
  then show ?thesis
    using True by (simp add: show_int_def number_of_def nat_of_digits_def digit_val_def)
next
  case False
  let ?d = "digits (nat \<bar>i\<bar>)"
  let ?s = "strip_zeros ?d"
  have hd: "hd ?d \<noteq> CHR ''0''"
    using hd_digits [of "nat \<bar>i\<bar>"] False by auto
  have s: "?s \<noteq> []" "list_all is_digit ?s" "hd ?s \<noteq> CHR ''0''"
    using strip_zeros_not_Nil [OF digits_not_Nil hd] strip_zeros_all_digit [OF digits_all_digit]
      hd_strip_zeros [of ?d] hd by simp_all
  have val: "nat_of_digits ?s * 10 ^ (length ?d - length ?s) = nat \<bar>i\<bar>"
    using nat_of_digits_strip_zeros [of ?d] by (simp add: nat_of_digits_digits)
  have le: "length ?s \<le> length ?d" by (rule length_strip_zeros)
  have num: "number_of neg (nat_of_digits ?s) (int (length ?s) - int (length ?d))
      = JNum (if neg then - \<bar>i\<bar> else \<bar>i\<bar>)" for neg
  proof -
    have "nat (int (length ?d) - int (length ?s)) = length ?d - length ?s"
      using le by arith
    moreover have "int (nat_of_digits ?s) * 10 ^ (length ?d - length ?s) = \<bar>i\<bar>"
      using val by (metis of_nat_numeral of_nat_mult of_nat_power int_nat_eq abs_ge_zero)
    ultimately show ?thesis
      using le by (simp add: number_of_def)
  qed
  show ?thesis
  proof (cases "i < 0")
    case True
    then show ?thesis
      using parse_number_neg [OF s(1,2) _ assms, of "int (length ?d)"] s(3) num [of True] False
      by (simp add: show_int_def)
  next
    case nonneg: False
    then show ?thesis
      using parse_number_pos [OF s(1,2) _ assms, of "int (length ?d)"] s(3) num [of False] False
      by (simp add: show_int_def)
  qed
qed

lemma parse_number_show_dec:
  assumes "ends_number r"
  shows "parse_number (show_dec m d @ r) = Some (JDec m d, r)"
proof -
  let ?d = "digits (nat \<bar>m\<bar>)"
  let ?n = "int (length ?d) - int d - 1"
  have lead: "hd ?d \<noteq> CHR ''0'' \<or> ?n \<le> 0"
  proof (cases "m = 0")
    case True
    then show ?thesis by (simp add: length_digits_0)
  next
    case False
    then show ?thesis using hd_digits [of "nat \<bar>m\<bar>"] by auto
  qed
  have num: "number_of neg (nat_of_digits ?d) (int (length ?d) - ?n)
      = JDec (if neg then - \<bar>m\<bar> else \<bar>m\<bar>) d" for neg
    by (simp add: number_of_def nat_of_digits_digits)
  show ?thesis
  proof (cases "m < 0")
    case True
    then show ?thesis
      using parse_number_neg [OF digits_not_Nil digits_all_digit lead assms] num [of True]
      by (simp add: show_dec_def)
  next
    case False
    then show ?thesis
      using parse_number_pos [OF digits_not_Nil digits_all_digit lead assms] num [of False]
      by (simp add: show_dec_def)
  qed
qed

lemma show_int_Cons:
  "\<exists>c cs. show_int i = c # cs \<and> (c = CHR ''-'' \<or> is_digit c)"
proof (cases "i = 0")
  case True
  then show ?thesis by (simp add: show_int_def is_digit_0)
next
  case False
  have hd: "hd (digits (nat \<bar>i\<bar>)) \<noteq> CHR ''0''"
    using hd_digits [of "nat \<bar>i\<bar>"] False by auto
  obtain c cs where "show_decimal (strip_zeros (digits (nat \<bar>i\<bar>))) (int (length (digits (nat \<bar>i\<bar>)))) = c # cs"
    "is_digit c"
    using show_decimal_Cons [OF strip_zeros_not_Nil [OF digits_not_Nil hd]
        strip_zeros_all_digit [OF digits_all_digit]] by blast
  then show ?thesis
    using False by (auto simp: show_int_def)
qed

lemma show_dec_Cons:
  "\<exists>c cs. show_dec m d = c # cs \<and> (c = CHR ''-'' \<or> is_digit c)"
proof -
  obtain c cs where "show_decimal (digits (nat \<bar>m\<bar>)) (int (length (digits (nat \<bar>m\<bar>))) - int d - 1) = c # cs"
    "is_digit c"
    using show_decimal_Cons [OF digits_not_Nil digits_all_digit] by blast
  then show ?thesis
    by (auto simp: show_dec_def)
qed

lemma hex_val_hex_char: "n < 16 \<Longrightarrow> hex_val (hex_char n) = Some n"
  by (auto simp: hex_val_def hex_char_def Let_def)

lemma hex_val_0: "hex_val CHR ''0'' = Some 0"
  by (simp add: hex_val_def)

lemma unescape_u_hex:
  assumes "(of_char c :: nat) < 32"
  shows "unescape_u CHR ''0'' CHR ''0'' (hex_char (of_char c div 16)) (hex_char (of_char c mod 16))
           = Some c"
proof -
  have a: "(of_char c :: nat) div 16 < 16" using assms by simp
  have b: "(of_char c :: nat) mod 16 < 16" by simp
  have "char_of (16 * ((of_char c :: nat) div 16) + of_char c mod 16) = c"
    by simp
  then show ?thesis
    by (simp add: unescape_u_def hex_val_0 hex_val_hex_char [OF a] hex_val_hex_char [OF b])
qed

lemma parse_chars_quote_char:
  "parse_chars (quote_char c @ rest) = map_option (\<lambda>(s, t). (c # s, t)) (parse_chars rest)"
proof -
  consider (q) "c = CHR 0x22" | (b) "c = CHR 0x5C" | (bs) "c = CHR 0x08" | (ff) "c = CHR 0x0C"
    | (nl) "c = CHR 0x0A" | (cr) "c = CHR 0x0D" | (tab) "c = CHR 0x09"
    | (ctl) "c \<notin> {CHR 0x22, CHR 0x5C, CHR 0x08, CHR 0x0C, CHR 0x0A, CHR 0x0D, CHR 0x09}"
            "(of_char c :: nat) < 32"
    | (plain) "c \<notin> {CHR 0x22, CHR 0x5C, CHR 0x08, CHR 0x0C, CHR 0x0A, CHR 0x0D, CHR 0x09}"
            "\<not> (of_char c :: nat) < 32"
    by blast
  then show ?thesis
  proof cases
    case ctl
    then show ?thesis
      by (simp add: quote_char_def unescape_u_hex)
  next
    case plain
    then show ?thesis
      by (simp add: quote_char_def)
  qed (simp_all add: quote_char_def unescape_def)
qed

lemma parse_chars_quoted:
  "parse_chars (concat (map quote_char s) @ CHR 0x22 # r) = Some (s, r)"
  by (induction s) (simp_all add: parse_chars_quote_char)

lemma quote_eq: "quote s @ r = CHR 0x22 # concat (map quote_char s) @ CHR 0x22 # r"
  by (simp add: quote_def)

lemma skip_ws_Cons: "\<not> is_ws c \<Longrightarrow> skip_ws (c # cs) = c # cs"
  by (simp add: skip_ws_def)

lemma stringify_Cons: "\<exists>c cs. stringify v = c # cs \<and> value_start c"
proof (cases v)
  case (JNum i)
  obtain c cs where "show_int i = c # cs" "c = CHR ''-'' \<or> is_digit c"
    using show_int_Cons by blast
  with JNum show ?thesis
    by (auto simp: value_start_def is_ws_def is_digit_def)
next
  case (JDec m d)
  obtain c cs where "show_dec m d = c # cs" "c = CHR ''-'' \<or> is_digit c"
    using show_dec_Cons by blast
  with JDec show ?thesis
    by (auto simp: value_start_def is_ws_def is_digit_def)
qed (auto simp: value_start_def is_ws_def quote_def)

lemma skip_ws_stringify: "skip_ws (stringify v @ x) = stringify v @ x"
  using stringify_Cons [of v] by (auto simp: value_start_def skip_ws_Cons)

lemma stringify_not_Nil: "stringify v \<noteq> []"
  using stringify_Cons [of v] by auto

lemma parse_value_null:
  "parse_value (Suc n) (''null'' @ r) = Some (JNull, r)"
  by (simp add: parse_literal_def is_digit_def)

lemma parse_value_true:
  "parse_value (Suc n) (''true'' @ r) = Some (JBool True, r)"
  by (simp add: parse_literal_def is_digit_def)

lemma parse_value_false:
  "parse_value (Suc n) (''false'' @ r) = Some (JBool False, r)"
  by (simp add: parse_literal_def is_digit_def)

lemma parse_value_number:
  assumes "ends_number r"
  shows "parse_value (Suc n) (show_int i @ r) = Some (JNum i, r)"
proof -
  obtain c cs where s: "show_int i = c # cs" and c: "c = CHR ''-'' \<or> is_digit c"
    using show_int_Cons by blast
  from c have ne: "c \<noteq> CHR 0x22" "c \<noteq> CHR ''[''" "c \<noteq> CHR ''{''"
    by (auto simp: is_digit_def)
  have "parse_value (Suc n) (c # cs @ r) = parse_number (c # cs @ r)"
    using ne c by simp
  with parse_number_show_int [OF assms, of i] s show ?thesis
    by simp
qed

lemma parse_value_decimal:
  assumes "ends_number r"
  shows "parse_value (Suc n) (show_dec m d @ r) = Some (JDec m d, r)"
proof -
  obtain c cs where s: "show_dec m d = c # cs" and c: "c = CHR ''-'' \<or> is_digit c"
    using show_dec_Cons by blast
  from c have ne: "c \<noteq> CHR 0x22" "c \<noteq> CHR ''[''" "c \<noteq> CHR ''{''"
    by (auto simp: is_digit_def)
  have "parse_value (Suc n) (c # cs @ r) = parse_number (c # cs @ r)"
    using ne c by simp
  with parse_number_show_dec [OF assms, of m d] s show ?thesis
    by simp
qed

lemma parse_value_string:
  "parse_value (Suc n) (quote s @ r) = Some (JStr s, r)"
  by (simp add: quote_eq parse_chars_quoted)

lemma ends_number_delim [simp]:
  "ends_number []" "ends_number (CHR '','' # x)" "ends_number (CHR '']'' # x)"
  "ends_number (CHR ''}'' # x)"
  by (simp_all add: ends_number_def is_digit_def)

lemma length_commas_Cons: "length s \<le> length (commas (s # ss))"
  by (cases ss) simp_all

lemma parse_elements_stringify:
  assumes "\<forall>v \<in> set vs. \<forall>n r. ends_number r \<longrightarrow> length (stringify v) < n
             \<longrightarrow> parse_value n (stringify v @ r) = Some (v, r)"
    and "vs \<noteq> []"
    and "length (commas (map stringify vs)) + 2 \<le> m"
  shows "parse_elements m (commas (map stringify vs) @ CHR '']'' # r) = Some (vs, r)"
  using assms
proof (induction vs arbitrary: m)
  case Nil
  then show ?case by simp
next
  case (Cons v vs)
  note IH = Cons.IH and prems = Cons.prems
  from prems(3) obtain m' where m: "m = Suc m'" by (cases m) auto
  show ?case
  proof (cases vs)
    case Nil
    have "length (stringify v) < m'"
      using prems(3) m Nil by simp
    then have "parse_value m' (stringify v @ CHR '']'' # r) = Some (v, CHR '']'' # r)"
      using prems(1) by simp
    then show ?thesis
      by (simp add: m Nil skip_ws_def is_ws_def)
  next
    case (Cons v' vs')
    let ?rest = "commas (map stringify (v' # vs')) @ CHR '']'' # r"
    have len: "length (commas (map stringify (v # vs)))
         = length (stringify v) + 1 + length (commas (map stringify (v' # vs')))"
      by (simp add: Cons)
    have "length (stringify v) < m'"
      using prems(3) m len by simp
    then have pv: "parse_value m' (stringify v @ CHR '','' # ?rest) = Some (v, CHR '','' # ?rest)"
      using prems(1) by simp
    have "commas (map stringify (v' # vs')) = stringify v' @ (case vs' of [] \<Rightarrow> [] | _ \<Rightarrow> CHR '','' # commas (map stringify vs'))"
      by (cases vs') simp_all
    then have sk: "skip_ws ?rest = ?rest"
      by (simp add: skip_ws_stringify)
    have "length (stringify v) \<ge> 1"
      using stringify_not_Nil [of v] by (cases "stringify v") auto
    then have fuel: "length (commas (map stringify (v' # vs'))) + 2 \<le> m'"
      using prems(3) m len by simp
    have ih: "parse_elements m' ?rest = Some (v' # vs', r)"
      using IH [of m'] fuel prems(1) Cons by simp
    have "commas (map stringify (v # vs)) @ CHR '']'' # r = stringify v @ CHR '','' # ?rest"
      by (simp add: Cons)
    then show ?thesis
      using pv sk ih by (simp add: m skip_ws_Cons is_ws_def Cons)
  qed
qed

lemma parse_members_stringify:
  assumes "\<forall>p \<in> set ps. \<forall>n r. ends_number r \<longrightarrow> length (stringify (snd p)) < n
             \<longrightarrow> parse_value n (stringify (snd p) @ r) = Some (snd p, r)"
    and "ps \<noteq> []"
    and "length (commas (map member ps)) + 2 \<le> m"
  shows "parse_members m (commas (map member ps) @ CHR ''}'' # r) = Some (ps, r)"
  using assms
proof (induction ps arbitrary: m)
  case Nil
  then show ?case by simp
next
  case (Cons p ps)
  note IH = Cons.IH and prems = Cons.prems
  from prems(3) obtain m' where m: "m = Suc m'" by (cases m) auto
  obtain k v where p: "p = (k, v)" by (cases p)
  have mem: "member p @ x = CHR 0x22 # concat (map quote_char k) @ CHR 0x22 # CHR '':'' # stringify v @ x" for x
    by (simp add: member_def p quote_def)
  have lm: "length (stringify v) < length (member p)"
    by (simp add: member_def p)
  have step: "parse_members (Suc m') (member p @ x) =
      (case parse_value m' (stringify v @ x) of
         None \<Rightarrow> None
       | Some (v', r3) \<Rightarrow>
           (case skip_ws r3 of
              [] \<Rightarrow> None
            | c' # r4 \<Rightarrow>
                if c' = CHR '','' then
                  map_option (\<lambda>(ps, t). ((k, v') # ps, t)) (parse_members m' (skip_ws r4))
                else if c' = CHR ''}'' then Some ([(k, v')], r4)
                else None))" for x
    by (simp add: mem parse_chars_quoted skip_ws_Cons is_ws_def skip_ws_stringify)
  show ?case
  proof (cases ps)
    case Nil
    have "length (stringify v) < m'"
      using prems(3) m Nil lm by simp
    then have "parse_value m' (stringify v @ CHR ''}'' # r) = Some (v, CHR ''}'' # r)"
      using prems(1) p by simp
    then show ?thesis
      using step [of "CHR ''}'' # r"]
      by (simp add: m Nil skip_ws_Cons is_ws_def p)
  next
    case (Cons p' ps')
    let ?rest = "commas (map member (p' # ps')) @ CHR ''}'' # r"
    have len: "length (commas (map member (p # ps)))
         = length (member p) + 1 + length (commas (map member (p' # ps')))"
      by (simp add: Cons)
    have "length (stringify v) < m'"
      using prems(3) m len lm by simp
    then have pv: "parse_value m' (stringify v @ CHR '','' # ?rest) = Some (v, CHR '','' # ?rest)"
      using prems(1) p by simp
    have "commas (map member (p' # ps')) = member p' @ (case ps' of [] \<Rightarrow> [] | _ \<Rightarrow> CHR '','' # commas (map member ps'))"
      by (cases ps') simp_all
    then have sk: "skip_ws ?rest = ?rest"
      by (simp add: member_def quote_def skip_ws_Cons is_ws_def)
    have fuel: "length (commas (map member (p' # ps'))) + 2 \<le> m'"
      using prems(3) m len lm by simp
    have ih: "parse_members m' ?rest = Some (p' # ps', r)"
      using IH [of m'] fuel prems(1) Cons by simp
    have "commas (map member (p # ps)) @ CHR ''}'' # r = member p @ CHR '','' # ?rest"
      by (simp add: Cons)
    then show ?thesis
      using pv sk ih step [of "CHR '','' # ?rest"]
      by (simp add: m skip_ws_Cons is_ws_def Cons p)
  qed
qed

lemma parse_value_stringify:
  "ends_number r \<Longrightarrow> length (stringify v) < n \<Longrightarrow> parse_value n (stringify v @ r) = Some (v, r)"
proof (induction v arbitrary: n r)
  case JNull
  then obtain m where "n = Suc m" by (cases n) auto
  then show ?case using parse_value_null by simp
next
  case (JBool b)
  then obtain m where "n = Suc m" by (cases n) auto
  then show ?case using parse_value_true parse_value_false by (cases b) simp_all
next
  case (JNum i)
  then obtain m where "n = Suc m" by (cases n) auto
  then show ?case using parse_value_number [OF JNum.prems(1)] by simp
next
  case (JDec m d)
  then obtain k where "n = Suc k" by (cases n) auto
  then show ?case using parse_value_decimal [OF JDec.prems(1)] by simp
next
  case (JStr s)
  then obtain m where "n = Suc m" by (cases n) auto
  then show ?case using parse_value_string by simp
next
  case (JArr vs)
  then obtain m where n: "n = Suc m" by (cases n) auto
  show ?case
  proof (cases vs)
    case Nil
    then show ?thesis by (simp add: n skip_ws_Cons is_ws_def)
  next
    case (Cons v vs')
    obtain c cs where c: "stringify v = c # cs" "value_start c"
      using stringify_Cons by blast
    let ?body = "commas (map stringify vs) @ CHR '']'' # r"
    have body: "?body = c # (cs @ (case vs' of [] \<Rightarrow> [] | _ \<Rightarrow> CHR '','' # commas (map stringify vs')) @ CHR '']'' # r)"
      using Cons c by (cases vs') simp_all
    have fuel: "length (commas (map stringify vs)) + 2 \<le> m"
      using JArr.prems(2) n by simp
    have pe: "parse_elements m ?body = Some (vs, r)"
      by (rule parse_elements_stringify [OF _ _ fuel]) (use JArr.IH Cons in auto)
    have "parse_value (Suc m) (CHR ''['' # ?body) = map_option (\<lambda>(vs, t). (JArr vs, t)) (parse_elements m ?body)"
      using c(2) by (subst body, subst body) (simp add: skip_ws_Cons value_start_def)
    with pe show ?thesis
      by (simp add: n)
  qed
next
  case (JObj ps)
  then obtain m where n: "n = Suc m" by (cases n) auto
  have str: "stringify (JObj ps) = CHR ''{'' # commas (map member ps) @ ''}''"
    by (simp add: member_def [abs_def])
  show ?case
  proof (cases ps)
    case Nil
    then show ?thesis by (simp add: n skip_ws_Cons is_ws_def)
  next
    case (Cons p ps')
    let ?body = "commas (map member ps) @ CHR ''}'' # r"
    have body: "?body = CHR 0x22 # (concat (map quote_char (fst p)) @ CHR 0x22 # CHR '':'' # stringify (snd p)
          @ (case ps' of [] \<Rightarrow> [] | _ \<Rightarrow> CHR '','' # commas (map member ps')) @ CHR ''}'' # r)"
      using Cons by (cases ps') (simp_all add: member_def quote_def)
    have fuel: "length (commas (map member ps)) + 2 \<le> m"
      using JObj.prems(2) n str by simp
    have ih: "\<forall>p \<in> set ps. \<forall>n r. ends_number r \<longrightarrow> length (stringify (snd p)) < n
             \<longrightarrow> parse_value n (stringify (snd p) @ r) = Some (snd p, r)"
    proof (intro ballI allI impI)
      fix q n' r'
      assume q: "q \<in> set ps" and e: "ends_number r'" and l: "length (stringify (snd q)) < n'"
      have "snd q \<in> Basic_BNFs.snds q" by (cases q) simp
      from JObj.IH [OF q this e l] show "parse_value n' (stringify (snd q) @ r') = Some (snd q, r')" .
    qed
    have pm: "parse_members m ?body = Some (ps, r)"
      by (rule parse_members_stringify [OF ih _ fuel]) (use Cons in auto)
    have "parse_value (Suc m) (CHR ''{'' # ?body) = map_option (\<lambda>(ps, t). (JObj ps, t)) (parse_members m ?body)"
      by (subst body, subst body) (simp add: skip_ws_Cons is_ws_def)
    with pm show ?thesis
      by (simp add: n str del: stringify.simps)
  qed
qed

lemma parse_value_stringify_top:
  "parse_value (Suc (length (stringify v))) (stringify v) = Some (v, [])"
  using parse_value_stringify [of "[]" v "Suc (length (stringify v))"] by simp

lemma parse_text_stringify: "parse_text (stringify v) = Some v"
proof -
  have "skip_ws (stringify v) = stringify v"
    using skip_ws_stringify [of v "[]"] by simp
  moreover have "skip_ws [] = []"
    by (simp add: skip_ws_def)
  ultimately show ?thesis
    by (simp add: parse_text_def parse_value_stringify_top del: parse_value.simps)
qed

lemma JSON_parse_stringify:
  "JSON_parse (stringify v) = (if exact (reify v) then Value (reify v) else Outside)"
  by (simp add: JSON_parse_def parse_text_stringify)

lemma stringify_inject: "stringify v = stringify w \<Longrightarrow> v = w"
  using parse_value_stringify_top [of v] parse_value_stringify_top [of w] by simp

subsection \<open>The bound on the recursion is enough\<close>

text \<open>
  A reader that succeeds consumes at least one character, and succeeds with the same
  result under every bound that is at least the number of characters it consumed. So the
  bound that \<open>parse_text\<close> sets never cuts a reading short: \<open>None\<close> is a text outside the
  grammar.
\<close>

lemma length_skip_ws: "length (skip_ws s) \<le> length s"
  by (simp add: skip_ws_def length_dropWhile_le)

lemma parse_chars_shorter: "parse_chars cs = Some (s, r) \<Longrightarrow> length r < length cs"
proof (induction cs arbitrary: s r rule: length_induct)
  case (1 cs)
  have ih: "length r < length ys" if "length ys < length cs" "parse_chars ys = Some (s, r)" for ys s r
    using 1(1) that by blast
  from 1(2) obtain c cs' where cs: "cs = c # cs'" by (cases cs) auto
  show ?case
  proof (cases "c = CHR 0x22")
    case True
    with 1(2) show ?thesis by (simp add: cs)
  next
    case nq: False
    show ?thesis
    proof (cases "c = CHR 0x5C")
      case True
      then obtain e r0 where cs': "cs' = e # r0"
        using 1(2) nq cs by (cases cs') auto
      show ?thesis
      proof (cases "e = CHR ''u''")
        case u: True
        then obtain a b c' d r' where r0: "r0 = a # b # c' # d # r'"
          using 1(2) nq True cs cs' by (auto split: list.splits)
        then obtain s' where p: "parse_chars r' = Some (s', r)"
          using 1(2) nq True cs cs' u by (auto split: option.splits)
        from ih [OF _ p] show ?thesis
          by (simp add: cs cs' r0)
      next
        case nu: False
        then obtain s' where p: "parse_chars r0 = Some (s', r)"
          using 1(2) nq True cs cs' by (auto split: option.splits)
        from ih [OF _ p] show ?thesis
          by (simp add: cs cs')
      qed
    next
      case nb: False
      then obtain s' where p: "parse_chars cs' = Some (s', r)"
        using 1(2) nq cs by (auto split: if_splits)
      from ih [OF _ p] show ?thesis by (simp add: cs)
    qed
  qed
qed

lemma parse_fraction_shorter: "parse_fraction r = Some (fp, r') \<Longrightarrow> length r' \<le> length r"
  using length_dropWhile_le [of is_digit "tl r"]
  by (cases r) (auto simp: parse_fraction_def Let_def split: if_splits)

lemma parse_exponent_shorter: "parse_exponent r = Some (e, r') \<Longrightarrow> length r' \<le> length r"
proof -
  assume a: "parse_exponent r = Some (e, r')"
  have d: "length (dropWhile is_digit xs) \<le> length xs" for xs
    by (rule length_dropWhile_le)
  have 1: "length (dropWhile is_digit (tl r)) \<le> length r"
    using d [of "tl r"] by simp
  have 2: "length (dropWhile is_digit (tl (tl r))) \<le> length r"
    using d [of "tl (tl r)"] by simp
  show ?thesis
    using a 1 2 by (auto simp: parse_exponent_def Let_def split: if_splits)
qed

lemma parse_number_shorter: "parse_number cs = Some (v, r) \<Longrightarrow> length r < length cs"
proof -
  assume a: "parse_number cs = Some (v, r)"
  let ?neg = "cs \<noteq> [] \<and> hd cs = CHR ''-''"
  let ?cs1 = "if ?neg then tl cs else cs"
  from a have ne: "takeWhile is_digit ?cs1 \<noteq> []"
    by (auto simp: parse_number_def Let_def split: if_splits)
  from a obtain fp r1 e where pf: "parse_fraction (dropWhile is_digit ?cs1) = Some (fp, r1)"
    and pe: "parse_exponent r1 = Some (e, r)"
    by (auto simp: parse_number_def Let_def split: if_splits option.splits)
  have "length (takeWhile is_digit ?cs1) + length (dropWhile is_digit ?cs1) = length ?cs1"
    by (metis length_append takeWhile_dropWhile_id)
  with ne have "length (dropWhile is_digit ?cs1) < length ?cs1"
    by (cases "takeWhile is_digit ?cs1") auto
  moreover have "length ?cs1 \<le> length cs" by simp
  ultimately show ?thesis
    using parse_fraction_shorter [OF pf] parse_exponent_shorter [OF pe] by simp
qed

lemma parse_literal_shorter: "parse_literal cs = Some (v, r) \<Longrightarrow> length r < length cs"
  by (cases cs) (auto simp: parse_literal_def split: if_splits)

lemma parse_fuel:
  "(\<forall>s v r. parse_value n s = Some (v, r) \<longrightarrow>
       length r < length s \<and> (\<forall>m. length s - length r \<le> m \<longrightarrow> parse_value m s = Some (v, r)))
 \<and> (\<forall>s vs r. parse_elements n s = Some (vs, r) \<longrightarrow>
       length r < length s \<and> (\<forall>m. length s - length r \<le> m \<longrightarrow> parse_elements m s = Some (vs, r)))
 \<and> (\<forall>s ps r. parse_members n s = Some (ps, r) \<longrightarrow>
       length r < length s \<and> (\<forall>m. length s - length r \<le> m \<longrightarrow> parse_members m s = Some (ps, r)))"
proof (induction n)
  case 0
  show ?case by simp
next
  case (Suc n)
  then have ihv: "length r < length s \<and> (\<forall>m. length s - length r \<le> m \<longrightarrow> parse_value m s = Some (v, r))"
    if "parse_value n s = Some (v, r)" for s v r
    using that by blast
  from Suc have ihe: "length r < length s \<and> (\<forall>m. length s - length r \<le> m \<longrightarrow> parse_elements m s = Some (vs, r))"
    if "parse_elements n s = Some (vs, r)" for s vs r
    using that by blast
  from Suc have ihm: "length r < length s \<and> (\<forall>m. length s - length r \<le> m \<longrightarrow> parse_members m s = Some (ps, r))"
    if "parse_members n s = Some (ps, r)" for s ps r
    using that by blast
  have V: "length r < length s \<and> (\<forall>m. length s - length r \<le> m \<longrightarrow> parse_value m s = Some (v, r))"
    if a: "parse_value (Suc n) s = Some (v, r)" for s v r
  proof -
    from a obtain c r0 where s: "s = c # r0" by (cases s) auto
    consider (str) "c = CHR 0x22"
      | (arr) "c \<noteq> CHR 0x22" "c = CHR ''[''"
      | (obj) "c \<noteq> CHR 0x22" "c \<noteq> CHR ''[''" "c = CHR ''{''"
      | (num) "c \<noteq> CHR 0x22" "c \<noteq> CHR ''[''" "c \<noteq> CHR ''{''" "c = CHR ''-'' \<or> is_digit c"
      | (lit) "c \<noteq> CHR 0x22" "c \<noteq> CHR ''[''" "c \<noteq> CHR ''{''" "\<not> (c = CHR ''-'' \<or> is_digit c)"
      by blast
    then show ?thesis
    proof cases
      case str
      with a s obtain str where p: "parse_chars r0 = Some (str, r)" and v: "v = JStr str"
        by auto
      have l: "length r < length s" using parse_chars_shorter [OF p] s by simp
      have "parse_value m s = Some (v, r)" if "length s - length r \<le> m" for m
      proof -
        from that l obtain m' where "m = Suc m'" by (cases m) auto
        then show ?thesis using str s p v by simp
      qed
      with l show ?thesis by blast
    next
      case arr
      with a s obtain c' r' where sk: "skip_ws r0 = c' # r'"
        by (auto split: list.splits)
      have lsk: "length (c' # r') \<le> length r0"
        using length_skip_ws [of r0] sk by simp
      show ?thesis
      proof (cases "c' = CHR '']''")
        case True
        with a s arr sk have v: "v = JArr []" and r: "r = r'" by auto
        have l: "length r < length s" using lsk r s by simp
        have "parse_value m s = Some (v, r)" if "length s - length r \<le> m" for m
        proof -
          from that l obtain m' where "m = Suc m'" by (cases m) auto
          then show ?thesis using arr s sk True v r by simp
        qed
        with l show ?thesis by blast
      next
        case False
        with a s arr sk obtain vs where pe: "parse_elements n (c' # r') = Some (vs, r)"
          and v: "v = JArr vs"
          by auto
        from ihe [OF pe] have l': "length r < length (c' # r')"
          and f: "\<And>m. length (c' # r') - length r \<le> m \<Longrightarrow> parse_elements m (c' # r') = Some (vs, r)"
          by blast+
        have l: "length r < length s" using l' lsk s by simp
        have "parse_value m s = Some (v, r)" if "length s - length r \<le> m" for m
        proof -
          from that l obtain m' where m: "m = Suc m'" by (cases m) auto
          with that lsk s have "length (c' # r') - length r \<le> m'" by simp
          from f [OF this] show ?thesis using arr s sk False v m by simp
        qed
        with l show ?thesis by blast
      qed
    next
      case obj
      with a s obtain c' r' where sk: "skip_ws r0 = c' # r'"
        by (auto split: list.splits)
      have lsk: "length (c' # r') \<le> length r0"
        using length_skip_ws [of r0] sk by simp
      show ?thesis
      proof (cases "c' = CHR ''}''")
        case True
        with a s obj sk have v: "v = JObj []" and r: "r = r'" by auto
        have l: "length r < length s" using lsk r s by simp
        have "parse_value m s = Some (v, r)" if "length s - length r \<le> m" for m
        proof -
          from that l obtain m' where "m = Suc m'" by (cases m) auto
          then show ?thesis using obj s sk True v r by simp
        qed
        with l show ?thesis by blast
      next
        case False
        with a s obj sk obtain ps where pe: "parse_members n (c' # r') = Some (ps, r)"
          and v: "v = JObj ps"
          by auto
        from ihm [OF pe] have l': "length r < length (c' # r')"
          and f: "\<And>m. length (c' # r') - length r \<le> m \<Longrightarrow> parse_members m (c' # r') = Some (ps, r)"
          by blast+
        have l: "length r < length s" using l' lsk s by simp
        have "parse_value m s = Some (v, r)" if "length s - length r \<le> m" for m
        proof -
          from that l obtain m' where m: "m = Suc m'" by (cases m) auto
          with that lsk s have "length (c' # r') - length r \<le> m'" by simp
          from f [OF this] show ?thesis using obj s sk False v m by simp
        qed
        with l show ?thesis by blast
      qed
    next
      case num
      with a s have p: "parse_number s = Some (v, r)" by auto
      have l: "length r < length s" by (rule parse_number_shorter [OF p])
      have "parse_value m s = Some (v, r)" if "length s - length r \<le> m" for m
      proof -
        from that l obtain m' where "m = Suc m'" by (cases m) auto
        then show ?thesis using num s p by auto
      qed
      with l show ?thesis by blast
    next
      case lit
      with a s have p: "parse_literal s = Some (v, r)" by auto
      have l: "length r < length s" by (rule parse_literal_shorter [OF p])
      have "parse_value m s = Some (v, r)" if "length s - length r \<le> m" for m
      proof -
        from that l obtain m' where "m = Suc m'" by (cases m) auto
        then show ?thesis using lit s p by auto
      qed
      with l show ?thesis by blast
    qed
  qed
  have E: "length r < length s \<and> (\<forall>m. length s - length r \<le> m \<longrightarrow> parse_elements m s = Some (vs, r))"
    if a: "parse_elements (Suc n) s = Some (vs, r)" for s vs r
  proof -
    from a obtain v r1 where pv: "parse_value n s = Some (v, r1)"
      by (auto split: option.splits)
    from ihv [OF pv] have l1: "length r1 < length s"
      and f1: "\<And>m. length s - length r1 \<le> m \<Longrightarrow> parse_value m s = Some (v, r1)"
      by blast+
    from a pv obtain c r2 where sk: "skip_ws r1 = c # r2"
      by (auto split: list.splits)
    have lsk: "length (c # r2) \<le> length r1"
      using length_skip_ws [of r1] sk by simp
    show ?thesis
    proof (cases "c = CHR '',''")
      case True
      with a pv sk obtain vs' where pe: "parse_elements n (skip_ws r2) = Some (vs', r)"
        and vs: "vs = v # vs'"
        by auto
      from ihe [OF pe] have l': "length r < length (skip_ws r2)"
        and f: "\<And>m. length (skip_ws r2) - length r \<le> m \<Longrightarrow> parse_elements m (skip_ws r2) = Some (vs', r)"
        by blast+
      have l2: "length (skip_ws r2) \<le> length r2" by (rule length_skip_ws)
      have l: "length r < length s" using l' l2 lsk l1 by simp
      have "parse_elements m s = Some (vs, r)" if "length s - length r \<le> m" for m
      proof -
        from that l obtain m' where m: "m = Suc m'" by (cases m) auto
        have "length s - length r1 \<le> m'" using that m l' l2 lsk l1 by simp
        from f1 [OF this] have 1: "parse_value m' s = Some (v, r1)" .
        have "length (skip_ws r2) - length r \<le> m'" using that m l' l2 lsk l1 by simp
        from f [OF this] have 2: "parse_elements m' (skip_ws r2) = Some (vs', r)" .
        show ?thesis using 1 2 sk True vs m by simp
      qed
      with l show ?thesis by blast
    next
      case False
      with a pv sk have c: "c = CHR '']''" and vs: "vs = [v]" and r: "r = r2"
        by (auto split: if_splits)
      have l: "length r < length s" using r lsk l1 by simp
      have "parse_elements m s = Some (vs, r)" if "length s - length r \<le> m" for m
      proof -
        from that l obtain m' where m: "m = Suc m'" by (cases m) auto
        have "length s - length r1 \<le> m'" using that m r lsk l1 by simp
        from f1 [OF this] have 1: "parse_value m' s = Some (v, r1)" .
        show ?thesis using 1 sk c vs r m by simp
      qed
      with l show ?thesis by blast
    qed
  qed
  have M: "length r < length s \<and> (\<forall>m. length s - length r \<le> m \<longrightarrow> parse_members m s = Some (ps, r))"
    if a: "parse_members (Suc n) s = Some (ps, r)" for s ps r
  proof -
    from a obtain r0 where s: "s = CHR 0x22 # r0"
      by (cases s) (auto split: if_splits)
    from a s obtain k r1 where pc: "parse_chars r0 = Some (k, r1)"
      by (auto split: option.splits)
    have l0: "length r1 < length r0" by (rule parse_chars_shorter [OF pc])
    from a s pc obtain r2 where sk1: "skip_ws r1 = CHR '':'' # r2"
      by (auto split: list.splits if_splits)
    have lsk1: "length (CHR '':'' # r2) \<le> length r1"
      using length_skip_ws [of r1] sk1 by simp
    from a s pc sk1 obtain v r3 where pv: "parse_value n (skip_ws r2) = Some (v, r3)"
      by (auto split: option.splits)
    from ihv [OF pv] have l3: "length r3 < length (skip_ws r2)"
      and f3: "\<And>m. length (skip_ws r2) - length r3 \<le> m \<Longrightarrow> parse_value m (skip_ws r2) = Some (v, r3)"
      by blast+
    have l2: "length (skip_ws r2) \<le> length r2" by (rule length_skip_ws)
    from a s pc sk1 pv obtain c' r4 where sk3: "skip_ws r3 = c' # r4"
      by (auto split: list.splits)
    have lsk3: "length (c' # r4) \<le> length r3"
      using length_skip_ws [of r3] sk3 by simp
    show ?thesis
    proof (cases "c' = CHR '',''")
      case True
      with a s pc sk1 pv sk3 obtain ps' where pm: "parse_members n (skip_ws r4) = Some (ps', r)"
        and ps: "ps = (k, v) # ps'"
        by auto
      from ihm [OF pm] have l': "length r < length (skip_ws r4)"
        and f: "\<And>m. length (skip_ws r4) - length r \<le> m \<Longrightarrow> parse_members m (skip_ws r4) = Some (ps', r)"
        by blast+
      have l4: "length (skip_ws r4) \<le> length r4" by (rule length_skip_ws)
      have l: "length r < length s" using l' l4 lsk3 l3 l2 lsk1 l0 s by simp
      have "parse_members m s = Some (ps, r)" if "length s - length r \<le> m" for m
      proof -
        from that l obtain m' where m: "m = Suc m'" by (cases m) auto
        have "length (skip_ws r2) - length r3 \<le> m'"
          using that m l' l4 lsk3 l3 l2 lsk1 l0 s by simp
        from f3 [OF this] have 1: "parse_value m' (skip_ws r2) = Some (v, r3)" .
        have "length (skip_ws r4) - length r \<le> m'"
          using that m l' l4 lsk3 l3 l2 lsk1 l0 s by simp
        from f [OF this] have 2: "parse_members m' (skip_ws r4) = Some (ps', r)" .
        show ?thesis using 1 2 s pc sk1 sk3 True ps m by simp
      qed
      with l show ?thesis by blast
    next
      case False
      with a s pc sk1 pv sk3 have c: "c' = CHR ''}''" and ps: "ps = [(k, v)]" and r: "r = r4"
        by (auto split: if_splits)
      have l: "length r < length s" using r lsk3 l3 l2 lsk1 l0 s by simp
      have "parse_members m s = Some (ps, r)" if "length s - length r \<le> m" for m
      proof -
        from that l obtain m' where m: "m = Suc m'" by (cases m) auto
        have "length (skip_ws r2) - length r3 \<le> m'"
          using that m r lsk3 l3 l2 lsk1 l0 s by simp
        from f3 [OF this] have 1: "parse_value m' (skip_ws r2) = Some (v, r3)" .
        show ?thesis using 1 s pc sk1 sk3 c ps r m by simp
      qed
      with l show ?thesis by blast
    qed
  qed
  from V E M show ?case by blast
qed

lemma parse_text_any_fuel:
  assumes "parse_value n (skip_ws s) = Some (v, r)" and "skip_ws r = []"
  shows "parse_text s = Some v"
proof -
  from parse_fuel [of n] assms(1)
  have "\<forall>m. length (skip_ws s) - length r \<le> m \<longrightarrow> parse_value m (skip_ws s) = Some (v, r)"
    by blast
  moreover have "length (skip_ws s) - length r \<le> Suc (length s)"
    using length_skip_ws [of s] by simp
  ultimately have "parse_value (Suc (length s)) (skip_ws s) = Some (v, r)"
    by blast
  with assms(2) show ?thesis
    by (simp add: parse_text_def del: parse_value.simps)
qed

section \<open>Properties of the cache\<close>

lemma cache_slot_valid:
  "type \<in> {''userData'', ''mediaData'', ''searchResults''} \<Longrightarrow> \<exists>m. cache_slot c type = Slot_map m"
  by (auto simp: cache_slot_def)

lemma cache_slot_put:
  "cache_slot c type = Slot_map m \<Longrightarrow> cache_slot (cache_put c type m') type = Slot_map m'"
  by (auto simp: cache_slot_def cache_put_def split: if_splits)

lemma getFromCache_Some:
  assumes "getFromCache q now type key (Some (Ttl t)) = Inr (Some x, q')"
  shows "\<exists>m e. cache_slot (cache q) type = Slot_map m \<and> map_of m key = Some e
           \<and> val e = Some x \<and> now - timestamp e \<le> t \<and> q' = q"
  using assms
  by (auto simp: getFromCache_def Let_def older_than_def split: slot.splits option.splits if_splits)

text \<open>
  C4. In each of the three categories, an entry written by \<open>setToCache\<close> at time \<open>T\<close> is
  returned by \<open>getFromCache\<close> with the TTL \<open>t\<close> at every time \<open>now\<close> with \<open>now - T \<le> t\<close> (so
  at \<open>T + e\<close> for every \<open>e < t\<close>); at every time with \<open>now - T > t\<close> the call returns
  \<open>null\<close> and the map no longer holds the key afterwards. In any state, a value that
  \<open>getFromCache\<close> returns belongs to an entry whose age does not exceed the TTL.
\<close>

theorem cache_entry_ttl:
  assumes "type \<in> {''userData'', ''mediaData'', ''searchResults''}"
  shows "\<exists>p1. setToCache p T type key v = Inr p1 \<and>
     (now - T \<le> t \<longrightarrow> getFromCache p1 now type key (Some (Ttl t)) = Inr (Some v, p1)) \<and>
     (now - T > t \<longrightarrow>
        (\<exists>p2 m2. getFromCache p1 now type key (Some (Ttl t)) = Inr (None, p2)
           \<and> cache_slot (cache p2) type = Slot_map m2 \<and> map_of m2 key = None)) \<and>
     (\<forall>q x q'. getFromCache q now type key (Some (Ttl t)) = Inr (Some x, q') \<longrightarrow>
        (\<exists>m e. cache_slot (cache q) type = Slot_map m \<and> map_of m key = Some e
           \<and> val e = Some x \<and> now - timestamp e \<le> t))"
proof -
  from assms obtain m where m: "cache_slot (cache p) type = Slot_map m"
    using cache_slot_valid by blast
  define m1 where "m1 = AList.update key \<lparr>val = Some v, timestamp = T\<rparr> m"
  define p1 where "p1 = p\<lparr>cache := cache_put (cache p) type m1\<rparr>"
  have stored: "setToCache p T type key v = Inr p1"
    by (simp add: setToCache_def m p1_def m1_def)
  have slot1: "cache_slot (cache p1) type = Slot_map m1"
    by (simp add: p1_def cache_slot_put [OF m])
  have look: "map_of m1 key = Some \<lparr>val = Some v, timestamp = T\<rparr>"
    by (simp add: m1_def update_conv')
  have fresh: "now - T \<le> t \<Longrightarrow> getFromCache p1 now type key (Some (Ttl t)) = Inr (Some v, p1)"
    by (simp add: getFromCache_def older_than_def slot1 look)
  have stale: "now - T > t \<Longrightarrow> getFromCache p1 now type key (Some (Ttl t))
      = Inr (None, p1\<lparr>cache := cache_put (cache p1) type (AList.delete key m1)\<rparr>)"
    by (simp add: getFromCache_def older_than_def slot1 look)
  have gone: "cache_slot (cache (p1\<lparr>cache := cache_put (cache p1) type (AList.delete key m1)\<rparr>)) type
      = Slot_map (AList.delete key m1)"
    by (simp add: cache_slot_put [OF slot1])
  have absent: "map_of (AList.delete key m1) key = None"
    by (simp add: delete_conv')
  have never: "\<exists>m e. cache_slot (cache q) type = Slot_map m \<and> map_of m key = Some e
           \<and> val e = Some x \<and> now - timestamp e \<le> t"
    if "getFromCache q now type key (Some (Ttl t)) = Inr (Some x, q')" for q x q'
    using getFromCache_Some [OF that] by blast
  from stored fresh stale gone absent never show ?thesis by blast
qed

theorem cache_entry_ttl_witness:
  "''mediaData'' \<in> {''userData'', ''mediaData'', ''searchResults''} \<and>
   (\<exists>p1. setToCache (new_plugin []) 1000 ''mediaData'' ''k'' (JNum 7) = Inr p1
      \<and> getFromCache p1 2000 ''mediaData'' ''k'' (Some (Ttl 600000)) = Inr (Some (JNum 7), p1)) \<and>
   (\<exists>p1 p2 m2. setToCache (new_plugin []) 1000 ''mediaData'' ''k'' (JNum 7) = Inr p1
      \<and> getFromCache p1 601001 ''mediaData'' ''k'' (Some (Ttl 600000)) = Inr (None, p2)
      \<and> cache_slot (cache p2) ''mediaData'' = Slot_map m2 \<and> map_of m2 ''k'' = None)"
proof -
  have h: "''mediaData'' \<in> {''userData'', ''mediaData'', ''searchResults''}" by simp
  from cache_entry_ttl [OF h, of "new_plugin []" 1000 "''k''" "JNum 7" 2000 600000]
  have a: "\<exists>p1. setToCache (new_plugin []) 1000 ''mediaData'' ''k'' (JNum 7) = Inr p1
      \<and> getFromCache p1 2000 ''mediaData'' ''k'' (Some (Ttl 600000)) = Inr (Some (JNum 7), p1)"
    by auto
  from cache_entry_ttl [OF h, of "new_plugin []" 1000 "''k''" "JNum 7" 601001 600000]
  have b: "\<exists>p1 p2 m2. setToCache (new_plugin []) 1000 ''mediaData'' ''k'' (JNum 7) = Inr p1
      \<and> getFromCache p1 601001 ''mediaData'' ''k'' (Some (Ttl 600000)) = Inr (None, p2)
      \<and> cache_slot (cache p2) ''mediaData'' = Slot_map m2 \<and> map_of m2 ''k'' = None"
    by auto
  from h a b show ?thesis by blast
qed

section \<open>Properties of invalidation\<close>

lemma prune_loop_filter:
  "fst (prune_loop b mid ek keys m c)
     = filter (\<lambda>p. \<not> (fst p \<in> set keys \<and> key_cleared b mid ek (fst p))) m"
proof (induction keys arbitrary: m c)
  case Nil
  then show ?case by simp
next
  case (Cons k keys)
  show ?case
  proof (cases "key_cleared b mid ek k")
    case True
    then show ?thesis
      by (auto simp: Cons.IH AList.delete_eq intro!: filter_cong)
  next
    case False
    then show ?thesis
      by (auto simp: Cons.IH intro!: filter_cong)
  qed
qed

lemma prune_filter:
  "fst (prune b mid m ek) = filter (\<lambda>p. \<not> key_cleared b mid ek (fst p)) m"
  unfolding prune_def prune_loop_filter
  by (rule filter_cong) auto

lemma clearCacheForMedia_cache:
  assumes "parseInt mediaId = Some mid" "mid \<noteq> 0"
  shows "cache (clearCacheForMedia b p mediaId) =
     \<lparr>userData = [],
      mediaData = filter (\<lambda>p. \<not> key_cleared b mid [''mediaId''] (fst p)) (mediaData (cache p)),
      searchResults = filter (\<lambda>p. \<not> key_cleared b mid [''mediaId''] (fst p)) (searchResults (cache p))\<rparr>"
  using assms
  by (simp add: clearCacheForMedia_def clearListCaches_def Let_def split_beta prune_filter)

lemma array_index_mediaId: "array_index ''mediaId'' = None"
  by (simp add: array_index_def is_digit_def)

lemma prop_is_mediaId:
  "prop_is parsed ''mediaId'' mid =
     (case parsed of
        JNull \<Rightarrow> Inl TypeError
      | JObj ps \<Rightarrow> Inr (obj_get ps ''mediaId'' = Some (JNum mid))
      | _ \<Rightarrow> Inr False)"
  by (simp add: prop_is_def array_index_mediaId split: json.splits)

lemma key_cleared_read:
  "key_cleared b mid [''mediaId''] k =
     (case JSON_parse k of
        Value v \<Rightarrow>
          if exact (JNum mid)
          then \<exists>ps. v = JObj ps \<and> obj_get ps ''mediaId'' = Some (JNum mid)
          else b k
      | Syntax_error \<Rightarrow> False
      | Outside \<Rightarrow> b k)"
  by (auto simp: key_cleared_def prop_is_mediaId split: read.splits json.splits bool.splits)

lemma map_of_filter_fst:
  "map_of (filter (\<lambda>p. P (fst p)) m) k = (if P k then map_of m k else None)"
  by (induction m) auto

text \<open>
  C10. For every \<open>mediaId\<close> that \<open>clearCacheForMedia\<close> accepts (\<open>parseInt\<close> gives a non-zero
  number \<open>mid\<close>), the call leaves \<open>userData\<close> empty, whatever it held. An entry of
  \<open>searchResults\<close> whose key is not JSON stays, and the entries after it are still
  examined: for an exact \<open>mid\<close>, \<open>searchResults\<close> keeps, in order, the entries whose key is
  not JSON and those whose key is the JSON text of anything but an object with
  \<open>mediaId === mid\<close>.
\<close>

theorem clearCacheForMedia_sweep:
  assumes "parseInt mediaId = Some mid" and "mid \<noteq> 0"
  shows "userData (cache (clearCacheForMedia beyond p mediaId)) = []
    \<and> (\<forall>k. JSON_parse k = Syntax_error \<longrightarrow>
          map_of (searchResults (cache (clearCacheForMedia beyond p mediaId))) k
            = map_of (searchResults (cache p)) k)
    \<and> (exact (JNum mid) \<longrightarrow>
          searchResults (cache (clearCacheForMedia beyond p mediaId))
            = filter (\<lambda>(k, e). case JSON_parse k of
                         Value v \<Rightarrow> \<not> (\<exists>ps. v = JObj ps \<and> obj_get ps ''mediaId'' = Some (JNum mid))
                       | Syntax_error \<Rightarrow> True
                       | Outside \<Rightarrow> \<not> beyond k)
                (searchResults (cache p)))"
proof -
  let ?p' = "clearCacheForMedia beyond p mediaId"
  have c: "searchResults (cache ?p')
      = filter (\<lambda>p. \<not> key_cleared beyond mid [''mediaId''] (fst p)) (searchResults (cache p))"
    and u: "userData (cache ?p') = []"
    by (simp_all add: clearCacheForMedia_cache [OF assms])
  have s: "map_of (searchResults (cache ?p')) k = map_of (searchResults (cache p)) k"
    if "JSON_parse k = Syntax_error" for k
  proof -
    have "\<not> key_cleared beyond mid [''mediaId''] k"
      using that by (simp add: key_cleared_read)
    then show ?thesis
      unfolding c
      by (simp add: map_of_filter_fst [where P = "\<lambda>k. \<not> key_cleared beyond mid [''mediaId''] k"])
  qed
  have f: "searchResults (cache ?p')
            = filter (\<lambda>(k, e). case JSON_parse k of
                         Value v \<Rightarrow> \<not> (\<exists>ps. v = JObj ps \<and> obj_get ps ''mediaId'' = Some (JNum mid))
                       | Syntax_error \<Rightarrow> True
                       | Outside \<Rightarrow> \<not> beyond k)
                (searchResults (cache p))"
    if "exact (JNum mid)"
    unfolding c
    by (rule filter_cong) (auto simp: key_cleared_read that split: read.splits simp del: exact.simps)
  from u s f show ?thesis by blast
qed

theorem clearCacheForMedia_sweep_witness:
  "parseInt (JNum 42) = Some 42 \<and> (42::int) \<noteq> 0 \<and> exact (JNum 42)
   \<and> JSON_parse ''not json'' = Syntax_error
   \<and> userData (cache (clearCacheForMedia (\<lambda>k. False)
        ((new_plugin [])\<lparr>cache := \<lparr>userData = [(''any list key'', \<lparr>val = Some JNull, timestamp = 5\<rparr>)],
            mediaData = [],
            searchResults =
              [(''not json'', \<lparr>val = Some JNull, timestamp = 5\<rparr>),
               (''{\"mediaId\":42,\"score\":7.5}'', \<lparr>val = Some JNull, timestamp = 6\<rparr>),
               (''{\"mediaId\":\"42\"}'', \<lparr>val = Some JNull, timestamp = 7\<rparr>),
               (''{\"mediaId\":4.2e1}'', \<lparr>val = Some JNull, timestamp = 8\<rparr>)]\<rparr>\<rparr>) (JNum 42))) = []
   \<and> searchResults (cache (clearCacheForMedia (\<lambda>k. False)
        ((new_plugin [])\<lparr>cache := \<lparr>userData = [(''any list key'', \<lparr>val = Some JNull, timestamp = 5\<rparr>)],
            mediaData = [],
            searchResults =
              [(''not json'', \<lparr>val = Some JNull, timestamp = 5\<rparr>),
               (''{\"mediaId\":42,\"score\":7.5}'', \<lparr>val = Some JNull, timestamp = 6\<rparr>),
               (''{\"mediaId\":\"42\"}'', \<lparr>val = Some JNull, timestamp = 7\<rparr>),
               (''{\"mediaId\":4.2e1}'', \<lparr>val = Some JNull, timestamp = 8\<rparr>)]\<rparr>\<rparr>) (JNum 42)))
       = [(''not json'', \<lparr>val = Some JNull, timestamp = 5\<rparr>),
          (''{\"mediaId\":\"42\"}'', \<lparr>val = Some JNull, timestamp = 7\<rparr>)]"
proof -
  define p where "p = (new_plugin [])\<lparr>cache := \<lparr>userData = [(''any list key'', \<lparr>val = Some JNull, timestamp = 5\<rparr>)],
            mediaData = [],
            searchResults =
              [(''not json'', \<lparr>val = Some JNull, timestamp = 5\<rparr>),
               (''{\"mediaId\":42,\"score\":7.5}'', \<lparr>val = Some JNull, timestamp = 6\<rparr>),
               (''{\"mediaId\":\"42\"}'', \<lparr>val = Some JNull, timestamp = 7\<rparr>),
               (''{\"mediaId\":4.2e1}'', \<lparr>val = Some JNull, timestamp = 8\<rparr>)]\<rparr>\<rparr>"
  have h1: "parseInt (JNum 42) = Some 42" by code_simp
  have h2: "(42::int) \<noteq> 0" by simp
  have h3: "exact (JNum 42)" by code_simp
  have k1: "JSON_parse ''not json'' = Syntax_error" by code_simp
  have k2: "JSON_parse ''{\"mediaId\":42,\"score\":7.5}''
      = Value (JObj [(''mediaId'', JNum 42), (''score'', JDec 75 0)])" by code_simp
  have k3: "JSON_parse ''{\"mediaId\":\"42\"}'' = Value (JObj [(''mediaId'', JStr ''42'')])"
    by code_simp
  have k4: "JSON_parse ''{\"mediaId\":4.2e1}'' = Value (JObj [(''mediaId'', JNum 42)])"
    by code_simp
  note t = clearCacheForMedia_sweep [OF h1 h2, of "\<lambda>k. False" p]
  from t have u: "userData (cache (clearCacheForMedia (\<lambda>k. False) p (JNum 42))) = []"
    by blast
  from t h3 have "searchResults (cache (clearCacheForMedia (\<lambda>k. False) p (JNum 42)))
      = filter (\<lambda>(k, e). case JSON_parse k of
                   Value v \<Rightarrow> \<not> (\<exists>ps. v = JObj ps \<and> obj_get ps ''mediaId'' = Some (JNum 42))
                 | Syntax_error \<Rightarrow> True
                 | Outside \<Rightarrow> \<not> False)
          (searchResults (cache p))"
    by blast
  also have "\<dots> = [(''not json'', \<lparr>val = Some JNull, timestamp = 5\<rparr>),
          (''{\"mediaId\":\"42\"}'', \<lparr>val = Some JNull, timestamp = 7\<rparr>)]"
    by (simp add: p_def k1 k2 k3 k4 obj_get_def)
  finally have s: "searchResults (cache (clearCacheForMedia (\<lambda>k. False) p (JNum 42)))
       = [(''not json'', \<lparr>val = Some JNull, timestamp = 5\<rparr>),
          (''{\"mediaId\":\"42\"}'', \<lparr>val = Some JNull, timestamp = 7\<rparr>)]" .
  from h1 h2 h3 k1 u s show ?thesis
    unfolding p_def by blast
qed

section \<open>Properties of \<open>fetchZoroData\<close>\<close>

lemma cacheType_of_valid:
  "cacheType_of config \<in> {''userData'', ''mediaData'', ''searchResults''}"
  by (simp add: cacheType_of_def)

text \<open>
  C1, as the code has it. With \<open>nocache\<close> set, \<open>fetchZoroData\<close> does not read the cache:
  whatever the maps hold, it succeeds exactly when the answer has no errors and truthy
  data, and its result is then that data. A failed call changes nothing in the plugin.
  A successful call stores the fetched data, stamped with the time of the store, under
  the derived key in the map of the configuration's category, and changes nothing else.
  (\<open>meanwhile e p\<close> is the plugin as other code left it while the call was suspended.)
\<close>

theorem fetchZoroData_nocache:
  assumes "nocache config"
  shows "(\<forall>d. fst (fetchZoroData p e config) = Inr d \<longleftrightarrow>
          (\<exists>r. fetched e = Inr (Some r) \<and> errors r = [] \<and> data r = Some d \<and> truthy d))
    \<and> (case fst (fetchZoroData p e config) of
         Inl err \<Rightarrow> snd (fetchZoroData p e config) = meanwhile e p
       | Inr d \<Rightarrow>
           (\<exists>m. cache_slot (cache (meanwhile e p)) (cacheType_of config) = Slot_map m
              \<and> snd (fetchZoroData p e config) =
                  (meanwhile e p)\<lparr>cache := cache_put (cache (meanwhile e p)) (cacheType_of config)
                     (AList.update (createCacheKey config)
                        \<lparr>val = Some d, timestamp = now_write e\<rparr> m)\<rparr>))"
proof -
  let ?ct = "cacheType_of config" and ?k = "createCacheKey config" and ?q = "meanwhile e p"
  have eq: "fetchZoroData p e config = fetch_fresh ?q e ?ct ?k"
    using assms by (simp add: fetchZoroData_def)
  obtain m where m: "cache_slot (cache ?q) ?ct = Slot_map m"
    using cache_slot_valid [OF cacheType_of_valid] by blast
  have 2: "fst (fetch_fresh ?q e ?ct ?k) = Inr d \<longleftrightarrow>
          (\<exists>r. fetched e = Inr (Some r) \<and> errors r = [] \<and> data r = Some d \<and> truthy d)" for d
    by (auto simp: fetch_fresh_def setToCache_def m split: sum.splits option.splits list.splits)
  have 3: "case fst (fetch_fresh ?q e ?ct ?k) of
         Inl err \<Rightarrow> snd (fetch_fresh ?q e ?ct ?k) = ?q
       | Inr d \<Rightarrow>
           (\<exists>m. cache_slot (cache ?q) ?ct = Slot_map m
              \<and> snd (fetch_fresh ?q e ?ct ?k) =
                  ?q\<lparr>cache := cache_put (cache ?q) ?ct
                     (AList.update ?k \<lparr>val = Some d, timestamp = now_write e\<rparr> m)\<rparr>)"
    by (auto simp: fetch_fresh_def setToCache_def m split: sum.splits option.splits list.splits)
  show ?thesis
    unfolding eq using 2 3 by blast
qed

theorem fetchZoroData_nocache_witness:
  "nocache [(''type'', JStr ''stats''), (''username'', JStr ''alice''), (''nocache'', JBool True)]
   \<and> fst (fetchZoroData (new_plugin [])
        \<lparr>now_read = 1000, now_write = 1500,
         fetched = Inr (Some \<lparr>errors = [], data = Some (JObj [(''User'', JNull)])\<rparr>),
         meanwhile = (\<lambda>p. p)\<rparr>
        [(''type'', JStr ''stats''), (''username'', JStr ''alice''), (''nocache'', JBool True)])
     = Inr (JObj [(''User'', JNull)])"
proof -
  have h: "nocache [(''type'', JStr ''stats''), (''username'', JStr ''alice''), (''nocache'', JBool True)]"
    by (simp add: nocache_def obj_get_def)
  from fetchZoroData_nocache [OF h, of "new_plugin []"
      "\<lparr>now_read = 1000, now_write = 1500,
         fetched = Inr (Some \<lparr>errors = [], data = Some (JObj [(''User'', JNull)])\<rparr>),
         meanwhile = (\<lambda>p. p)\<rparr>"]
  have "fst (fetchZoroData (new_plugin [])
        \<lparr>now_read = 1000, now_write = 1500,
         fetched = Inr (Some \<lparr>errors = [], data = Some (JObj [(''User'', JNull)])\<rparr>),
         meanwhile = (\<lambda>p. p)\<rparr>
        [(''type'', JStr ''stats''), (''username'', JStr ''alice''), (''nocache'', JBool True)])
     = Inr (JObj [(''User'', JNull)])"
    by simp
  with h show ?thesis by blast
qed

text \<open>
  The claim as the specification words it fails: an inline link with the \<open>nocache\<close>
  modifier whose request succeeds, with nothing else touching the plugin, adds an entry
  to \<open>mediaData\<close>.
\<close>

theorem fetchZoroData_nocache_writes:
  "nocache
      [(''username'', JStr ''alice''), (''layout'', JStr ''card''), (''type'', JStr ''single''),
       (''mediaType'', JStr ''ANIME''), (''mediaId'', JNum 42), (''nocache'', JBool True)]
   \<and> mediaData (cache (snd (fetchZoroData (new_plugin [])
        \<lparr>now_read = 1000, now_write = 1500,
         fetched = Inr (Some \<lparr>errors = [], data = Some (JObj [(''MediaList'', JNull)])\<rparr>),
         meanwhile = (\<lambda>p. p)\<rparr>
        [(''username'', JStr ''alice''), (''layout'', JStr ''card''), (''type'', JStr ''single''),
         (''mediaType'', JStr ''ANIME''), (''mediaId'', JNum 42), (''nocache'', JBool True)])))
     \<noteq> mediaData (cache (new_plugin []))"
  by (simp add: nocache_def obj_get_def fetchZoroData_def fetch_fresh_def setToCache_def
        cacheType_of_def cache_slot_def cache_put_def new_plugin_def)

section \<open>Properties of the request queue\<close>

lemma process_busy: "isProcessing s \<Longrightarrow> queue s \<noteq> [] \<Longrightarrow> process s = s"
  by (simp add: process_def)

lemma process_empty: "queue s = [] \<Longrightarrow> process s = hideGlobalLoader s"
  by (simp add: process_def)

lemma process_start:
  "\<not> isProcessing s \<Longrightarrow> queue s = q # qs \<Longrightarrow>
   process s = s\<lparr>isProcessing := True, loader := (if qs = [] \<and> showLoadingIcon s then True else loader s),
                 queue := qs, running := running s @ [q], trace := Started q (clock s) # trace s\<rparr>"
  by (simp add: process_def showGlobalLoader_def Let_def)

lemma Nil_eq_upt_iff: "([] = [a..<b]) = (b \<le> a)"
  by (subst eq_commute) auto

lemma Cons_eq_upt: "q # qs = [a..<b] \<Longrightarrow> q = a \<and> qs = [Suc a..<b] \<and> a < b"
  using upt_eq_Cons_conv [of a b q qs] by auto

lemma queue_inv_new: "queue_inv (new_queue icon)"
  by (simp add: queue_inv_def new_queue_def started_def ended_def last_time_def)

lemma queue_inv_tick: "queue_inv s \<Longrightarrow> queue_inv (s\<lparr>clock := clock s + n\<rparr>)"
  by (auto simp: queue_inv_def Nil_eq_upt_iff split: list.splits event.splits if_splits)

lemma queue_inv_add:
  assumes "queue_inv s"
  shows "queue_inv (add s)"
proof (cases "isProcessing s")
  case True
  then have "add s = s\<lparr>queue := queue s @ [next_id s], next_id := Suc (next_id s)\<rparr>"
    by (simp add: add_def process_busy)
  with assms True show ?thesis
    by (auto simp: queue_inv_def Nil_eq_upt_iff split: list.splits event.splits)
next
  case False
  with assms have q: "queue s = []" and st: "started (trace s) = next_id s"
    by (auto simp: queue_inv_def Nil_eq_upt_iff started_def split: list.splits event.splits)
  have "add s = s\<lparr>queue := [], next_id := Suc (next_id s), isProcessing := True,
                   loader := (if showLoadingIcon s then True else loader s),
                   running := running s @ [next_id s],
                   trace := Started (next_id s) (clock s) # trace s\<rparr>"
    using False q by (simp add: add_def process_start [where q = "next_id s" and qs = "[]"])
  with assms False q st show ?thesis
    by (auto simp: queue_inv_def Nil_eq_upt_iff started_def ended_def last_time_def split: list.splits event.splits)
qed

lemma queue_inv_settle:
  assumes "queue_inv s" "task \<in> set (running s)"
  shows "queue_inv (settle task result s)"
  using assms
  by (auto simp: queue_inv_def Nil_eq_upt_iff settle_def started_def ended_def last_time_def
           split: list.splits event.splits)

lemma queue_inv_fire:
  assumes "queue_inv s" "filter (\<lambda>d. d \<le> clock s) (timers s) = d # ds"
  shows "queue_inv (timeout_callback (s\<lparr>timers := remove1 d (timers s)\<rparr>))"
proof -
  from assms obtain i t r where tr: "trace s = Settled i t # r" and ip: "isProcessing s"
    and tm: "timers s = [t + delay s]" and run: "running s = []"
    by (auto simp: queue_inv_def Nil_eq_upt_iff split: list.splits event.splits if_splits)
  from assms(2) tm have d: "d = t + delay s" and due: "t + delay s \<le> clock s"
    by (auto split: if_splits)
  let ?s1 = "s\<lparr>timers := remove1 d (timers s), isProcessing := False\<rparr>"
  show ?thesis
  proof (cases "queue s")
    case Nil
    then have "timeout_callback (s\<lparr>timers := remove1 d (timers s)\<rparr>) = hideGlobalLoader ?s1"
      by (simp add: timeout_callback_def process_empty)
    with assms(1) tr tm d due Nil show ?thesis
      by (auto simp: queue_inv_def Nil_eq_upt_iff hideGlobalLoader_def started_def ended_def last_time_def)
  next
    case (Cons q qs)
    then have eq: "timeout_callback (s\<lparr>timers := remove1 d (timers s)\<rparr>) =
       ?s1\<lparr>isProcessing := True, loader := (if qs = [] \<and> showLoadingIcon s then True else loader s),
                 queue := qs, running := running s @ [q], trace := Started q (clock s) # trace s\<rparr>"
      by (simp add: timeout_callback_def process_start [where q = q and qs = qs])
    from assms(1) tr Cons have "q # qs = [Suc i ..< next_id s]"
      by (simp add: queue_inv_def started_def)
    from Cons_eq_upt [OF this]
    have q: "q = Suc i" and qs: "qs = [Suc (Suc i) ..< next_id s]" and lt: "Suc i < next_id s"
      by simp_all
    from assms(1) tr tm d due run q qs lt show ?thesis
      unfolding eq
      by (auto simp: queue_inv_def Nil_eq_upt_iff started_def ended_def last_time_def)
  qed
qed

lemma queue_inv_step: "queue_inv s \<Longrightarrow> step a s = Some s' \<Longrightarrow> queue_inv s'"
  by (cases a)
     (auto simp: queue_inv_add queue_inv_settle queue_inv_fire queue_inv_tick
           split: if_splits list.splits)

lemma queue_inv_run: "queue_inv s \<Longrightarrow> run as s = Some s' \<Longrightarrow> queue_inv s'"
  by (induction as arbitrary: s) (auto split: option.splits dest: queue_inv_step)

lemma run_delay: "run as s = Some s' \<Longrightarrow> delay s' = delay s"
proof (induction as arbitrary: s)
  case Nil then show ?case by simp
next
  case (Cons a as)
  then obtain s1 where a: "step a s = Some s1" and r: "run as s1 = Some s'"
    by (auto split: option.splits)
  have "delay s1 = delay s"
    using a
    by (cases a) (auto simp: add_def process_def settle_def timeout_callback_def
        showGlobalLoader_def hideGlobalLoader_def Let_def split: if_splits list.splits)
  with Cons.IH [OF r] show ?case by simp
qed

lemma run_append:
  "run (as @ bs) s = (case run as s of None \<Rightarrow> None | Some s' \<Rightarrow> run bs s')"
  by (induction as arbitrary: s) (auto split: option.splits)

lemma fire_round:
  assumes inv: "queue_inv s" and w: "timers s = [d]" and due: "d \<le> clock s"
  shows "\<exists>s'. step Fire s = Some s' \<and> queue_inv s' \<and> delay s' = delay s
            \<and> settled s' = settled s \<and> timers s' = []
            \<and> (case queue s of
                  [] \<Rightarrow> running s' = [] \<and> queue s' = [] \<and> \<not> isProcessing s'
                | q # qs \<Rightarrow> running s' = [q] \<and> queue s' = qs)"
proof -
  have f: "filter (\<lambda>d. d \<le> clock s) (timers s) = d # []"
    using w due by simp
  let ?s' = "timeout_callback (s\<lparr>timers := remove1 d (timers s)\<rparr>)"
  have st: "step Fire s = Some ?s'"
    using f by simp
  have i': "queue_inv ?s'"
    by (rule queue_inv_fire [OF inv f])
  from inv w have run: "running s = []"
    by (auto simp: queue_inv_def split: list.splits event.splits if_splits)
  show ?thesis
  proof (cases "queue s")
    case Nil
    then have "?s' = hideGlobalLoader (s\<lparr>timers := remove1 d (timers s), isProcessing := False\<rparr>)"
      by (simp add: timeout_callback_def process_empty)
    with st i' Nil run w show ?thesis
      by (simp add: hideGlobalLoader_def)
  next
    case (Cons q qs)
    then have "?s' = s\<lparr>timers := remove1 d (timers s), isProcessing := False, isProcessing := True,
                 loader := (if qs = [] \<and> showLoadingIcon s then True else loader s),
                 queue := qs, running := running s @ [q], trace := Started q (clock s) # trace s\<rparr>"
      by (simp add: timeout_callback_def process_start [where q = q and qs = qs])
    with st i' Cons run w show ?thesis
      by simp
  qed
qed

lemma settle_round:
  assumes inv: "queue_inv s" and r: "running s = [i]"
  shows "\<exists>s'. run [Settle i oc, Tick (delay s), Fire] s = Some s' \<and> queue_inv s'
            \<and> delay s' = delay s \<and> settled s' = settled s @ [(i, oc)] \<and> timers s' = []
            \<and> (case queue s of
                  [] \<Rightarrow> running s' = [] \<and> queue s' = [] \<and> \<not> isProcessing s'
                | q # qs \<Rightarrow> running s' = [q] \<and> queue s' = qs)"
proof -
  let ?s1 = "settle i oc s"
  let ?s2 = "?s1\<lparr>clock := clock ?s1 + delay s\<rparr>"
  have i1: "queue_inv ?s1"
    using queue_inv_settle [OF inv] r by simp
  have i2: "queue_inv ?s2"
    using queue_inv_tick [OF i1] .
  from inv r have t0: "timers s = []"
    by (auto simp: queue_inv_def split: list.splits event.splits if_splits)
  have w: "timers ?s2 = [clock s + delay s]" and due: "clock s + delay s \<le> clock ?s2"
    using t0 by (simp_all add: settle_def)
  from fire_round [OF i2 w due] obtain s' where
    s': "step Fire ?s2 = Some s'" "queue_inv s'" "delay s' = delay ?s2" "settled s' = settled ?s2"
      "timers s' = []"
      "case queue ?s2 of
                  [] \<Rightarrow> running s' = [] \<and> queue s' = [] \<and> \<not> isProcessing s'
                | q # qs \<Rightarrow> running s' = [q] \<and> queue s' = qs"
    by blast
  have "run [Settle i oc, Tick (delay s), Fire] s = Some s'"
    using r s'(1) by (simp add: settle_def)
  with s' show ?thesis
    by (simp add: settle_def)
qed

lemma drain_running:
  assumes "queue_inv s" and "running s = [i]" and "queue s = qs"
  shows "\<exists>s'. run ([Settle i (f i), Tick (delay s), Fire]
                  @ concat (map (\<lambda>j. [Settle j (f j), Tick (delay s), Fire]) qs)) s = Some s'
            \<and> settled s' = settled s @ map (\<lambda>j. (j, f j)) (i # qs)
            \<and> queue s' = [] \<and> running s' = [] \<and> timers s' = [] \<and> \<not> isProcessing s'"
  using assms
proof (induction qs arbitrary: s i)
  case Nil
  from settle_round [OF Nil(1,2), of "f i"] Nil(3) show ?case
    by (auto simp del: run.simps)
next
  case (Cons q qs)
  from settle_round [OF Cons.prems(1,2), of "f i"] Cons.prems(3)
  obtain s1 where s1: "run [Settle i (f i), Tick (delay s), Fire] s = Some s1" "queue_inv s1"
     "delay s1 = delay s" "settled s1 = settled s @ [(i, f i)]" "running s1 = [q]" "queue s1 = qs"
    by auto
  from Cons.IH [OF s1(2) s1(5) s1(6)] obtain s' where
    s': "run ([Settle q (f q), Tick (delay s1), Fire]
                  @ concat (map (\<lambda>j. [Settle j (f j), Tick (delay s1), Fire]) qs)) s1 = Some s'"
      "settled s' = settled s1 @ map (\<lambda>j. (j, f j)) (q # qs)"
      "queue s' = []" "running s' = []" "timers s' = []" "\<not> isProcessing s'"
    by blast
  have "run ([Settle i (f i), Tick (delay s), Fire]
                  @ concat (map (\<lambda>j. [Settle j (f j), Tick (delay s), Fire]) (q # qs))) s
        = run (concat (map (\<lambda>j. [Settle j (f j), Tick (delay s), Fire]) (q # qs))) s1"
    by (subst run_append) (simp only: s1(1) option.case)
  also have "\<dots> = Some s'"
    using s'(1) s1(3) by (simp del: run.simps)
  finally have "run ([Settle i (f i), Tick (delay s), Fire]
                  @ concat (map (\<lambda>j. [Settle j (f j), Tick (delay s), Fire]) (q # qs))) s = Some s'" .
  with s' s1(4) show ?case
    by simp
qed

lemma drain_all:
  assumes inv: "queue_inv s"
  shows "\<exists>s'. run (drain f s) s = Some s'
     \<and> settled s' = settled s @ map (\<lambda>j. (j, f j)) (running s @ queue s)
     \<and> queue s' = [] \<and> running s' = [] \<and> timers s' = [] \<and> \<not> isProcessing s'"
proof (cases "running s")
  case (Cons i r)
  with inv have r: "running s = [i]"
    by (auto simp: queue_inv_def split: list.splits event.splits if_splits)
  from drain_running [OF inv r refl, of f] r show ?thesis
    by (simp add: drain_def)
next
  case Nil
  show ?thesis
  proof (cases "timers s = []")
    case True
    with inv Nil have "queue s = []" "\<not> isProcessing s"
      by (auto simp: queue_inv_def Nil_eq_upt_iff split: list.splits event.splits if_splits)
    with Nil True show ?thesis
      by (simp add: drain_def)
  next
    case False
    with inv obtain d where w: "timers s = [d]" and d: "d \<le> clock s + delay s"
      by (auto simp: queue_inv_def last_time_def split: list.splits event.splits if_splits)
    let ?s1 = "s\<lparr>clock := clock s + delay s\<rparr>"
    have i1: "queue_inv ?s1" by (rule queue_inv_tick [OF inv])
    from fire_round [OF i1, of d] w d obtain s2 where
      s2: "step Fire ?s1 = Some s2" "queue_inv s2" "delay s2 = delay s" "settled s2 = settled s"
        "timers s2 = []"
        "case queue s of
                  [] \<Rightarrow> running s2 = [] \<and> queue s2 = [] \<and> \<not> isProcessing s2
                | q # qs \<Rightarrow> running s2 = [q] \<and> queue s2 = qs"
      by auto
    show ?thesis
    proof (cases "queue s")
      case Nil': Nil
      with s2 Nil False show ?thesis
        by (simp add: drain_def)
    next
      case (Cons q qs)
      with s2 have r2: "running s2 = [q]" and q2: "queue s2 = qs" by simp_all
      from drain_running [OF s2(2) r2 q2, of f] obtain s' where
        s': "run ([Settle q (f q), Tick (delay s2), Fire]
                  @ concat (map (\<lambda>j. [Settle j (f j), Tick (delay s2), Fire]) qs)) s2 = Some s'"
          "settled s' = settled s2 @ map (\<lambda>j. (j, f j)) (q # qs)"
          "queue s' = []" "running s' = []" "timers s' = []" "\<not> isProcessing s'"
        by blast
      have "drain f s = [Tick (delay s), Fire]
              @ concat (map (\<lambda>j. [Settle j (f j), Tick (delay s), Fire]) (q # qs))"
        using Nil False Cons by (simp add: drain_def)
      moreover have "run [Tick (delay s), Fire] s = Some s2"
        using s2(1) by simp
      ultimately have "run (drain f s) s
          = run (concat (map (\<lambda>j. [Settle j (f j), Tick (delay s), Fire]) (q # qs))) s2"
        by (simp only: run_append option.case)
      also have "\<dots> = Some s'"
        using s'(1) s2(3) by (simp del: run.simps)
      finally have "run (drain f s) s = Some s'" .
      with s' s2(4) Nil Cons show ?thesis by simp
    qed
  qed
qed

text \<open>
  C2. Tasks are numbered by their submission. In every state that a new queue reaches by
  any sequence of submissions, settlements, timer firings and passage of time, the log is
  in order: the first operation started is that of task 0, every operation ends before
  the next one starts, and the operation started after the end of task \<open>j\<close> is that of
  task \<open>j + 1\<close>. At most one operation is running, and the tasks waiting are those
  submitted and not yet started, in the order of submission.
\<close>

theorem queue_order:
  assumes "run acts (new_queue icon) = Some s"
  shows "in_order (trace s) \<and> length (running s) \<le> 1
     \<and> queue s = [started (trace s) ..< next_id s]"
proof -
  have i: "queue_inv s"
    by (rule queue_inv_run [OF queue_inv_new assms])
  then have "length (running s) \<le> 1"
    by (auto simp: queue_inv_def split: list.splits event.splits)
  with i show ?thesis
    by (simp add: queue_inv_def)
qed

theorem queue_order_witness:
  "case run [Add, Add, Tick 5, Settle 0 (Rejected TypeError), Add, Tick 700, Fire]
          (new_queue True) of
     None \<Rightarrow> False
   | Some s \<Rightarrow> trace s = [Started 1 705, Settled 0 5, Started 0 0]
        \<and> in_order (trace s) \<and> running s = [1] \<and> queue s = [2]"
proof -
  define s where "s = the (run [Add, Add, Tick 5, Settle 0 (Rejected TypeError), Add, Tick 700, Fire]
          (new_queue True))"
  have tr: "trace s = [Started 1 705, Settled 0 5, Started 0 0]" "running s = [1]" "queue s = [2]"
    unfolding s_def by code_simp+
  have "run [Add, Add, Tick 5, Settle 0 (Rejected TypeError), Add, Tick 700, Fire]
          (new_queue True) \<noteq> None"
    by code_simp
  then have h: "run [Add, Add, Tick 5, Settle 0 (Rejected TypeError), Add, Tick 700, Fire]
          (new_queue True) = Some s"
    by (auto simp: s_def)
  from queue_order [OF h] have "in_order (trace s)" by blast
  with tr show ?thesis
    by (simp only: h option.case)
qed

text \<open>
  C3. With a delay of \<open>d\<close> configured, in every reachable state each operation that
  starts after another has ended starts at least \<open>d\<close> after that end, whatever time the
  ended operation took; the delay of a new queue is 700 ms.
\<close>

theorem queue_spacing:
  assumes "run acts ((new_queue icon)\<lparr>delay := d\<rparr>) = Some s"
  shows "spaced d (trace s) \<and> delay s = d \<and> delay (new_queue icon) = 700"
proof -
  have "queue_inv ((new_queue icon)\<lparr>delay := d\<rparr>)"
    by (simp add: queue_inv_def new_queue_def started_def ended_def last_time_def)
  from queue_inv_run [OF this assms] have "spaced (delay s) (trace s)"
    by (simp add: queue_inv_def)
  moreover have "delay s = d"
    using run_delay [OF assms] by simp
  ultimately show ?thesis
    by (simp add: new_queue_def)
qed

theorem queue_spacing_witness:
  "case run [Add, Add, Tick 5, Settle 0 (Rejected TypeError), Add, Tick 700, Fire]
          ((new_queue True)\<lparr>delay := 700\<rparr>) of
     None \<Rightarrow> False
   | Some s \<Rightarrow> trace s = [Started 1 705, Settled 0 5, Started 0 0] \<and> spaced 700 (trace s)"
proof -
  define s where "s = the (run [Add, Add, Tick 5, Settle 0 (Rejected TypeError), Add, Tick 700, Fire]
          ((new_queue True)\<lparr>delay := 700\<rparr>))"
  have tr: "trace s = [Started 1 705, Settled 0 5, Started 0 0]"
    unfolding s_def by code_simp
  have "run [Add, Add, Tick 5, Settle 0 (Rejected TypeError), Add, Tick 700, Fire]
          ((new_queue True)\<lparr>delay := 700\<rparr>) \<noteq> None"
    by code_simp
  then have h: "run [Add, Add, Tick 5, Settle 0 (Rejected TypeError), Add, Tick 700, Fire]
          ((new_queue True)\<lparr>delay := 700\<rparr>) = Some s"
    by (auto simp: s_def)
  from queue_spacing [OF h] have "spaced 700 (trace s)" by blast
  with tr show ?thesis
    by (simp only: h option.case)
qed

text \<open>
  C9. From every reachable state and for every assignment \<open>f\<close> of outcomes to tasks,
  rejections included, the schedule \<open>drain f\<close> runs to its end: each pending operation
  settles as \<open>f\<close> says, the delay passes and the timer fires. Afterwards the promise of
  every task that was running or waiting holds the outcome of its own operation, in
  the order of submission, the queue is empty and idle, and the log is still in order
  with every start at least the delay after the end before it. No promise is settled twice,
  and what a settlement does to the queue does not depend on its outcome: a rejection
  differs from a result only in the entry recorded for that task's promise.
\<close>

theorem queue_isolation:
  assumes "run acts (new_queue icon) = Some s"
  shows "(\<exists>s'. run (drain f s) s = Some s'
            \<and> settled s' = settled s @ map (\<lambda>j. (j, f j)) (running s @ queue s)
            \<and> queue s' = [] \<and> running s' = [] \<and> \<not> isProcessing s'
            \<and> in_order (trace s') \<and> spaced (delay s) (trace s'))
     \<and> distinct (map fst (settled s))
     \<and> (\<forall>task e v. settle task (Rejected e) s
            = (settle task (Resolved v) s)\<lparr>settled := settled s @ [(task, Rejected e)]\<rparr>)"
proof -
  have i: "queue_inv s"
    by (rule queue_inv_run [OF queue_inv_new assms])
  from drain_all [OF i, of f] obtain s' where
    s': "run (drain f s) s = Some s'"
      "settled s' = settled s @ map (\<lambda>j. (j, f j)) (running s @ queue s)"
      "queue s' = []" "running s' = []" "\<not> isProcessing s'"
    by blast
  have i': "queue_inv s'"
    by (rule queue_inv_run [OF i s'(1)])
  have "delay s' = delay s"
    by (rule run_delay [OF s'(1)])
  with i' have "in_order (trace s')" "spaced (delay s) (trace s')"
    by (simp_all add: queue_inv_def)
  with s' have 1: "\<exists>s'. run (drain f s) s = Some s'
            \<and> settled s' = settled s @ map (\<lambda>j. (j, f j)) (running s @ queue s)
            \<and> queue s' = [] \<and> running s' = [] \<and> \<not> isProcessing s'
            \<and> in_order (trace s') \<and> spaced (delay s) (trace s')"
    by blast
  from i have "map fst (settled s) = [0 ..< ended (trace s)]"
    by (simp add: queue_inv_def)
  then have 2: "distinct (map fst (settled s))"
    by simp
  have 3: "settle task (Rejected e) s
      = (settle task (Resolved v) s)\<lparr>settled := settled s @ [(task, Rejected e)]\<rparr>" for task e v
    by (simp add: settle_def)
  from 1 2 3 show ?thesis by blast
qed

theorem queue_isolation_witness:
  "case run [Add, Add, Add] (new_queue True) of
     None \<Rightarrow> False
   | Some s \<Rightarrow>
      (case run (drain (\<lambda>j. if j = 1 then Rejected (Error ''failed'') else Resolved (JNum (int j))) s) s of
         None \<Rightarrow> False
       | Some s' \<Rightarrow> settled s' =
           [(0, Resolved (JNum 0)), (1, Rejected (Error ''failed'')), (2, Resolved (JNum 2))])"
proof -
  define s where "s = the (run [Add, Add, Add] (new_queue True))"
  define f where "f = (\<lambda>j::nat. if j = 1 then Rejected (Error ''failed'') else Resolved (JNum (int j)))"
  have st: "settled s = []" "running s = [0]" "queue s = [1, 2]"
    unfolding s_def by code_simp+
  have "run [Add, Add, Add] (new_queue True) \<noteq> None"
    by code_simp
  then have h: "run [Add, Add, Add] (new_queue True) = Some s"
    by (auto simp: s_def)
  from queue_isolation [OF h, of f] obtain s' where
    s': "run (drain f s) s = Some s'"
      "settled s' = settled s @ map (\<lambda>j. (j, f j)) (running s @ queue s)"
    by blast
  from s'(2) have "settled s' =
           [(0, Resolved (JNum 0)), (1, Rejected (Error ''failed'')), (2, Resolved (JNum 2))]"
    by (simp add: st f_def)
  with s'(1) show ?thesis
    unfolding f_def [symmetric] by (simp only: h option.case)
qed

section \<open>Properties of cache keys\<close>

lemma map_of_obj_insert:
  "k \<notin> fst ` set ps \<Longrightarrow> map_of (obj_insert k v ps) = (map_of ps)(k \<mapsto> v)"
proof (induction ps)
  case Nil
  then show ?case by simp
next
  case (Cons p ps)
  obtain k' v' where p: "p = (k', v')" by (cases p)
  with Cons.prems have ne: "k \<noteq> k'" and nin: "k \<notin> fst ` set ps" by auto
  show ?case
    using ne Cons.IH [OF nin]
    by (auto simp: p fun_upd_twist split: option.splits)
qed

lemma map_of_obj_set: "map_of (obj_set k v ps) = (map_of ps)(k \<mapsto> v)"
  by (simp add: obj_set_def map_of_obj_insert update_conv')

lemma map_of_obj_assign:
  "map_of (obj_assign k v ps) = (if k = ''__proto__'' then map_of ps else (map_of ps)(k \<mapsto> v))"
  by (simp add: obj_assign_def map_of_obj_set)

lemma map_of_copy_keys:
  "map_of (foldl (copy_key config) acc ks)
     = map_of acc ++ (map_of config |` (set ks - {''__proto__''}))"
proof (induction ks arbitrary: acc)
  case Nil
  then show ?case by simp
next
  case (Cons k ks)
  show ?case
  proof (cases "obj_get config k")
    case None
    then have "map_of config |` (set (k # ks) - {''__proto__''})
        = map_of config |` (set ks - {''__proto__''})"
      by (auto simp: obj_get_def restrict_map_def fun_eq_iff)
    moreover have "copy_key config acc k = acc"
      using None by (simp add: copy_key_def)
    ultimately show ?thesis
      by (simp add: Cons.IH)
  next
    case (Some v)
    have "map_of (obj_assign k v acc) ++ (map_of config |` (set ks - {''__proto__''}))
        = map_of acc ++ (map_of config |` (set (k # ks) - {''__proto__''}))"
      using Some
      by (auto simp: map_of_obj_assign obj_get_def restrict_map_def fun_eq_iff map_add_def
            split: option.splits)
    moreover have "copy_key config acc k = obj_assign k v acc"
      using Some by (simp add: copy_key_def)
    ultimately show ?thesis
      by (simp only: foldl.simps Cons.IH)
  qed
qed

lemma map_of_sorted_config:
  "map_of (foldl (copy_key config) [] (sort (Object_keys config))) k
     = (if k = ''__proto__'' then None else map_of config k)"
proof -
  have "map_of config x = None" if "x \<notin> fst ` set config" for x
    using that by (simp add: map_of_eq_None_iff)
  then have "(map_of config |` (set (sort (Object_keys config)) - {''__proto__''})) k
      = (if k = ''__proto__'' then None else map_of config k)"
    by (auto simp: Object_keys_def restrict_map_def)
  then show ?thesis
    by (simp add: map_of_copy_keys)
qed

text \<open>
  C7. \<open>createCacheKey\<close> is a function of the configuration alone, and two
  configurations with the same fields and values get the same key whatever the order in
  which their fields were set: the names are sorted before the object is serialised.
\<close>

theorem createCacheKey_order_independent:
  assumes "distinct (map fst a)" and "distinct (map fst b)" and "map_of a = map_of b"
  shows "createCacheKey a = createCacheKey b"
proof -
  have "set (map fst a) = dom (map_of a)" "set (map fst b) = dom (map_of b)"
    by (simp_all add: dom_map_of_conv_image_fst)
  with assms(3) have s: "set (Object_keys a) = set (Object_keys b)"
    by (simp add: Object_keys_def)
  have "sort (Object_keys a) = sort (Object_keys b)"
  proof (rule sorted_distinct_set_unique)
    show "sorted (sort (Object_keys a))" "sorted (sort (Object_keys b))" by simp_all
    show "distinct (sort (Object_keys a))" using assms(1) by (simp add: Object_keys_def)
    show "distinct (sort (Object_keys b))" using assms(2) by (simp add: Object_keys_def)
    show "set (sort (Object_keys a)) = set (sort (Object_keys b))" using s by simp
  qed
  moreover have "copy_key a = copy_key b"
    using assms(3) by (simp add: copy_key_def obj_get_def fun_eq_iff)
  ultimately show ?thesis
    by (simp add: createCacheKey_def)
qed

theorem createCacheKey_order_independent_witness:
  "distinct (map fst [(''type'', JStr ''single''), (''username'', JStr ''alice''),
                      (''mediaId'', JNum 42), (''mediaType'', JStr ''ANIME'')])
   \<and> distinct (map fst [(''mediaType'', JStr ''ANIME''), (''mediaId'', JNum 42),
                      (''username'', JStr ''alice''), (''type'', JStr ''single'')])
   \<and> map_of [(''type'', JStr ''single''), (''username'', JStr ''alice''),
             (''mediaId'', JNum 42), (''mediaType'', JStr ''ANIME'')]
       = map_of [(''mediaType'', JStr ''ANIME''), (''mediaId'', JNum 42),
                 (''username'', JStr ''alice''), (''type'', JStr ''single'')]
   \<and> createCacheKey [(''type'', JStr ''single''), (''username'', JStr ''alice''),
                      (''mediaId'', JNum 42), (''mediaType'', JStr ''ANIME'')]
       = createCacheKey [(''mediaType'', JStr ''ANIME''), (''mediaId'', JNum 42),
                         (''username'', JStr ''alice''), (''type'', JStr ''single'')]"
proof -
  have d1: "distinct (map fst [(''type'', JStr ''single''), (''username'', JStr ''alice''),
                      (''mediaId'', JNum 42), (''mediaType'', JStr ''ANIME'')])"
    by simp
  have d2: "distinct (map fst [(''mediaType'', JStr ''ANIME''), (''mediaId'', JNum 42),
                      (''username'', JStr ''alice''), (''type'', JStr ''single'')])"
    by simp
  have m: "map_of [(''type'', JStr ''single''), (''username'', JStr ''alice''),
             (''mediaId'', JNum 42), (''mediaType'', JStr ''ANIME'')]
       = map_of [(''mediaType'', JStr ''ANIME''), (''mediaId'', JNum 42),
                 (''username'', JStr ''alice''), (''type'', JStr ''single'')]"
    by (auto simp: fun_eq_iff)
  from createCacheKey_order_independent [OF d1 d2 m] d1 d2 m show ?thesis
    by blast
qed

text \<open>
  C8. Two configurations that differ in a field (a name present in one only, or a name
  with different values) get different keys: the key is the JSON text of the sorted
  object, and \<open>JSON.parse\<close> reads every such text back to the value it was written from.
  The field is any but \<open>__proto__\<close>, a name that no assignment gives to a
  configuration and that the copy into the sorted object cannot carry over.
\<close>

theorem createCacheKey_injective:
  assumes "map_of a k \<noteq> map_of b k" and "k \<noteq> ''__proto__''"
  shows "createCacheKey a \<noteq> createCacheKey b"
proof
  assume "createCacheKey a = createCacheKey b"
  then have "JObj (foldl (copy_key a) [] (sort (Object_keys a)))
           = JObj (foldl (copy_key b) [] (sort (Object_keys b)))"
    unfolding createCacheKey_def by (rule stringify_inject)
  then have "map_of (foldl (copy_key a) [] (sort (Object_keys a))) k
           = map_of (foldl (copy_key b) [] (sort (Object_keys b))) k"
    by simp
  then have "map_of a k = map_of b k"
    using assms(2) by (simp only: map_of_sorted_config if_False)
  with assms(1) show False by contradiction
qed

theorem createCacheKey_injective_witness:
  "map_of [(''type'', JStr ''single''), (''mediaId'', JNum 42)] ''mediaId''
     \<noteq> map_of [(''type'', JStr ''single''), (''mediaId'', JStr ''42'')] ''mediaId''
   \<and> ''mediaId'' \<noteq> ''__proto__''
   \<and> createCacheKey [(''type'', JStr ''single''), (''mediaId'', JNum 42)]
     \<noteq> createCacheKey [(''type'', JStr ''single''), (''mediaId'', JStr ''42'')]"
proof -
  have h: "map_of [(''type'', JStr ''single''), (''mediaId'', JNum 42)] ''mediaId''
     \<noteq> map_of [(''type'', JStr ''single''), (''mediaId'', JStr ''42'')] ''mediaId''"
    by simp
  have n: "''mediaId'' \<noteq> ''__proto__''" by simp
  from createCacheKey_injective [OF h n] h n show ?thesis by blast
qed

section \<open>Precision of the invalidation\<close>

text \<open>
  C5. A code block \<open>type: single\<close>, \<open>mediaId: 42\<close>, \<open>username: alice\<close> gives a configuration
  whose values are all strings (\<open>parseCodeBlockConfig\<close>), so its cache key encodes the
  \<open>mediaId\<close> as the string \<open>"42"\<close>; the inline link \<open>zoro:alice/anime/42\<close> gives one whose
  \<open>mediaId\<close> is the number 42 (\<open>parseInlineLink\<close>). \<open>updateMediaListEntry(42, updates)\<close>
  calls \<open>clearCacheForMedia(42)\<close>, whose test \<open>parsed[k] === id\<close> compares with the number
  42: of the three \<open>mediaData\<close> entries below, the one of the inline link is deleted, the
  one of media 99 stays, and the one of the code block for media 42 stays too, so that the
  next \<open>getFromCache\<close> within its ten minutes returns the data from before the mutation.
\<close>

theorem clearCacheForMedia_stale:
  "createCacheKey [(''type'', JStr ''single''), (''mediaId'', JStr ''42''),
       (''username'', JStr ''alice''), (''listType'', JStr ''CURRENT''),
       (''layout'', JStr ''card''), (''mediaType'', JStr ''ANIME'')]
     = ''{\"layout\":\"card\",\"listType\":\"CURRENT\",\"mediaId\":\"42\",\"mediaType\":\"ANIME\",\"type\":\"single\",\"username\":\"alice\"}''
   \<and> parseInt (JNum 42) = Some 42
   \<and> mediaData (cache (clearCacheForMedia beyond
        ((new_plugin [])\<lparr>cache := \<lparr>userData = [],
           mediaData =
             [(createCacheKey [(''type'', JStr ''single''), (''mediaId'', JStr ''42''),
                 (''username'', JStr ''alice''), (''listType'', JStr ''CURRENT''),
                 (''layout'', JStr ''card''), (''mediaType'', JStr ''ANIME'')],
               \<lparr>val = Some (JStr ''before the mutation''), timestamp = 1000\<rparr>),
              (createCacheKey [(''username'', JStr ''alice''), (''layout'', JStr ''card''),
                 (''type'', JStr ''single''), (''mediaType'', JStr ''ANIME''),
                 (''mediaId'', JNum 42)],
               \<lparr>val = Some (JStr ''inline link''), timestamp = 1000\<rparr>),
              (createCacheKey [(''type'', JStr ''single''), (''mediaId'', JStr ''99''),
                 (''username'', JStr ''alice''), (''listType'', JStr ''CURRENT''),
                 (''layout'', JStr ''card''), (''mediaType'', JStr ''ANIME'')],
               \<lparr>val = Some (JStr ''another item''), timestamp = 1000\<rparr>)],
           searchResults = []\<rparr>\<rparr>) (JNum 42)))
     = [(createCacheKey [(''type'', JStr ''single''), (''mediaId'', JStr ''42''),
           (''username'', JStr ''alice''), (''listType'', JStr ''CURRENT''),
           (''layout'', JStr ''card''), (''mediaType'', JStr ''ANIME'')],
         \<lparr>val = Some (JStr ''before the mutation''), timestamp = 1000\<rparr>),
        (createCacheKey [(''type'', JStr ''single''), (''mediaId'', JStr ''99''),
           (''username'', JStr ''alice''), (''listType'', JStr ''CURRENT''),
           (''layout'', JStr ''card''), (''mediaType'', JStr ''ANIME'')],
         \<lparr>val = Some (JStr ''another item''), timestamp = 1000\<rparr>)]
   \<and> fst (projr (getFromCache
        (clearCacheForMedia beyond
          ((new_plugin [])\<lparr>cache := \<lparr>userData = [],
             mediaData =
               [(createCacheKey [(''type'', JStr ''single''), (''mediaId'', JStr ''42''),
                   (''username'', JStr ''alice''), (''listType'', JStr ''CURRENT''),
                   (''layout'', JStr ''card''), (''mediaType'', JStr ''ANIME'')],
                 \<lparr>val = Some (JStr ''before the mutation''), timestamp = 1000\<rparr>),
                (createCacheKey [(''username'', JStr ''alice''), (''layout'', JStr ''card''),
                   (''type'', JStr ''single''), (''mediaType'', JStr ''ANIME''),
                   (''mediaId'', JNum 42)],
                 \<lparr>val = Some (JStr ''inline link''), timestamp = 1000\<rparr>),
                (createCacheKey [(''type'', JStr ''single''), (''mediaId'', JStr ''99''),
                   (''username'', JStr ''alice''), (''listType'', JStr ''CURRENT''),
                   (''layout'', JStr ''card''), (''mediaType'', JStr ''ANIME'')],
                 \<lparr>val = Some (JStr ''another item''), timestamp = 1000\<rparr>)],
             searchResults = []\<rparr>\<rparr>) (JNum 42))
        2000 ''mediaData''
        (createCacheKey [(''type'', JStr ''single''), (''mediaId'', JStr ''42''),
           (''username'', JStr ''alice''), (''listType'', JStr ''CURRENT''),
           (''layout'', JStr ''card''), (''mediaType'', JStr ''ANIME'')])
        (Some (Ttl 600000))))
     = Some (JStr ''before the mutation'')"
  by code_simp

section \<open>Properties of persistence\<close>

lemma array_index_names [simp]:
  "array_index ''userData'' = None" "array_index ''mediaData'' = None"
  "array_index ''searchResults'' = None" "array_index ''value'' = None"
  "array_index ''timestamp'' = None"
  by (simp_all add: array_index_def is_digit_def)

lemma cacheData_of_eq:
  "cacheData_of p =
     JObj [(''userData'', Map_entries (userData (cache p))),
           (''mediaData'', Map_entries (mediaData (cache p))),
           (''searchResults'', Map_entries (searchResults (cache p)))]"
  by (simp add: cacheData_of_def cache_entries_def obj_assign_def obj_set_def)

lemma build_object_three:
  "build_object [(''userData'', a), (''mediaData'', b), (''searchResults'', c)]
     = [(''userData'', a), (''mediaData'', b), (''searchResults'', c)]"
  by (simp add: build_object_def obj_set_def)

lemma reify_entry_json:
  assumes "case val e of Some v \<Rightarrow> reify v = v | None \<Rightarrow> True"
  shows "reify (entry_json e) = entry_json e"
  using assms
  by (cases "val e") (simp_all add: entry_json_def build_object_def obj_set_def)

lemma exact_entry_json:
  assumes "case val e of Some v \<Rightarrow> exact v | None \<Rightarrow> True" and "exact (JNum (timestamp e))"
  shows "exact (entry_json e)"
  using assms
  by (cases "val e") (simp_all add: entry_json_def del: exact.simps(1))

lemma reify_Map_entries:
  assumes "map_ok m"
  shows "reify (Map_entries m) = Map_entries m"
proof -
  have "reify (JArr [JStr k, entry_json e]) = JArr [JStr k, entry_json e]"
    if "(k, e) \<in> set m" for k e
  proof -
    from assms that have "case val e of Some v \<Rightarrow> reify v = v | None \<Rightarrow> True"
      by (auto simp: map_ok_def list_all_iff split: option.splits)
    then show ?thesis by (simp add: reify_entry_json)
  qed
  then have "map reify (map (\<lambda>(key, e). JArr [JStr key, entry_json e]) m)
      = map (\<lambda>(key, e). JArr [JStr key, entry_json e]) m"
    by (auto simp: map_idI)
  then show ?thesis
    by (simp add: Map_entries_def)
qed

lemma exact_Map_entries:
  assumes "map_ok m"
  shows "exact (Map_entries m)"
proof -
  have "exact (JArr [JStr k, entry_json e])" if "(k, e) \<in> set m" for k e
  proof -
    from assms that have "case val e of Some v \<Rightarrow> exact v | None \<Rightarrow> True"
      and "exact (JNum (timestamp e))"
      by (auto simp: map_ok_def list_all_iff split: option.splits simp del: exact.simps(1))
    then show ?thesis by (simp add: exact_entry_json del: exact.simps(1))
  qed
  then show ?thesis
    by (auto simp: Map_entries_def list_all_iff simp del: exact.simps(1))
qed

lemma reify_cacheData_of:
  assumes "cache_ok (cache p)"
  shows "reify (cacheData_of p) = cacheData_of p"
  using assms
  by (simp add: cacheData_of_eq cache_ok_def reify_Map_entries build_object_three)

lemma exact_cacheData_of:
  assumes "cache_ok (cache p)"
  shows "exact (cacheData_of p)"
  using assms
  by (simp add: cacheData_of_eq cache_ok_def exact_Map_entries)

lemma JSON_parse_saved:
  assumes "cache_ok (cache p)"
  shows "JSON_parse (stringify (cacheData_of p)) = Value (cacheData_of p)"
  by (simp only: JSON_parse_stringify reify_cacheData_of [OF assms] exact_cacheData_of [OF assms]
        if_True)

lemma timestamp_of_entry_json: "timestamp_of (entry_json e) = Stamp (timestamp e)"
  by (cases "val e") (simp_all add: timestamp_of_def entry_json_def obj_get_def)

lemma value_of_entry_json: "value_of (entry_json e) = val e"
  by (cases "val e") (simp_all add: value_of_def entry_json_def obj_get_def)

lemma truthy_entry_json: "truthy (entry_json e)"
  by (simp add: entry_json_def)

lemma entry_eta: "\<lparr>val = val e, timestamp = timestamp e\<rparr> = (e::entry)"
  by simp

lemma update_new: "k \<notin> fst ` set acc \<Longrightarrow> AList.update k e acc = acc @ [(k, e)]"
  by (induction acc) auto

lemma cache_put_twice:
  "cache_put (cache_put c type a) type b = cache_put c type b"
  by (simp add: cache_put_def)

lemma load_entry_encoded:
  assumes "cache_slot (cache P) type = Slot_map acc" and "k \<notin> fst ` set acc"
  shows "load_entry now type ttl \<lparr>loaded_plugin = P, loadedCount = L, expiredCount = E\<rparr>
           (JArr [JStr k, entry_json e])
       = Inr (if younger_than (now - timestamp e) ttl
              then \<lparr>loaded_plugin = P\<lparr>cache := cache_put (cache P) type (acc @ [(k, e)])\<rparr>,
                     loadedCount = L + 1, expiredCount = E\<rparr>
              else \<lparr>loaded_plugin = P, loadedCount = L, expiredCount = E + 1\<rparr>)"
  using assms
  by (simp add: load_entry_def destructure_def timestamp_of_entry_json value_of_entry_json
        cache_set_def update_new truthy_entry_json entry_eta)

lemma load_entries_encoded:
  assumes "cache_slot (cache P) type = Slot_map acc"
    and "distinct (map fst acc @ map fst m)"
    and "type \<in> {''userData'', ''mediaData'', ''searchResults''}"
  shows "load_entries now type (Ttl ttl) (map (\<lambda>(key, e). JArr [JStr key, entry_json e]) m)
           \<lparr>loaded_plugin = P, loadedCount = L, expiredCount = E\<rparr>
       = (\<lparr>loaded_plugin = P\<lparr>cache := cache_put (cache P) type (acc @ fresh now ttl m)\<rparr>,
            loadedCount = L + length (fresh now ttl m),
            expiredCount = E + (length m - length (fresh now ttl m))\<rparr>, None)"
  using assms(1,2)
proof (induction m arbitrary: P L E acc)
  case Nil
  have "cache_put (cache P) type acc = cache P"
    using Nil(1) assms(3) by (auto simp: cache_put_def cache_slot_def split: if_splits)
  then show ?case by (simp add: fresh_def)
next
  case (Cons x m)
  obtain k e where x: "x = (k, e)" by (cases x)
  from Cons.prems(2) have k: "k \<notin> fst ` set acc" by (auto simp: x)
  note le = load_entry_encoded [OF Cons.prems(1) k, of now "Ttl ttl" L E e]
  show ?case
  proof (cases "now - timestamp e < ttl")
    case True
    let ?P' = "P\<lparr>cache := cache_put (cache P) type (acc @ [(k, e)])\<rparr>"
    have slot: "cache_slot (cache ?P') type = Slot_map (acc @ [(k, e)])"
      using cache_slot_put [OF Cons.prems(1)] by simp
    have d: "distinct (map fst (acc @ [(k, e)]) @ map fst m)"
      using Cons.prems(2) by (auto simp: x)
    have fr: "fresh now ttl ((k, e) # m) = (k, e) # fresh now ttl m"
      using True by (simp add: fresh_def)
    have len: "length (fresh now ttl m) \<le> length m"
      by (simp add: fresh_def)
    show ?thesis
      using le True Cons.IH [OF slot d, of "L + 1" E] len
      by (simp add: x fr cache_put_twice younger_than_def)
  next
    case False
    have fr: "fresh now ttl ((k, e) # m) = fresh now ttl m"
      using False by (simp add: fresh_def)
    have d: "distinct (map fst acc @ map fst m)"
      using Cons.prems(2) by (auto simp: x)
    have len: "length (fresh now ttl m) \<le> length m"
      by (simp add: fresh_def)
    show ?thesis
      using le False Cons.IH [OF Cons.prems(1) d, of L "E + 1"] len
      by (simp add: x fr younger_than_def)
  qed
qed

lemma load_type_saved:
  assumes "cache_slot (cache P) type = Slot_map []"
    and "distinct (map fst m)"
    and "type \<in> {''userData'', ''mediaData'', ''searchResults''}"
    and "cacheTtl_of P type = Ttl ttl"
  shows "load_types now ((type, Map_entries m) # rest)
           \<lparr>loaded_plugin = P, loadedCount = L, expiredCount = E\<rparr>
       = load_types now rest
           \<lparr>loaded_plugin = P\<lparr>cache := cache_put (cache P) type (fresh now ttl m)\<rparr>,
            loadedCount = L + length (fresh now ttl m),
            expiredCount = E + (length m - length (fresh now ttl m))\<rparr>"
proof -
  have d: "distinct (map fst [] @ map fst m)" using assms(2) by simp
  show ?thesis
    using load_entries_encoded [OF assms(1) d assms(3), of now ttl L E] assms(1,4)
    by (simp add: Map_entries_def)
qed

lemma cacheTtl_of_names:
  "cacheTtl_of P ''userData'' = Ttl 1800000" "cacheTtl_of P ''mediaData'' = Ttl 600000"
  "cacheTtl_of P ''searchResults'' = Ttl 120000"
  by (simp_all add: cacheTtl_of_def ttlMap_def)

lemma load_try_saved:
  assumes "cache_ok (cache p)"
  shows "\<exists>n k. load_try (new_plugin token) now (stringify (cacheData_of p))
       = (\<lparr>loaded_plugin = hydrated token now (cache p), loadedCount = n, expiredCount = k\<rparr>, None)"
proof -
  let ?u = "userData (cache p)" and ?m = "mediaData (cache p)" and ?s = "searchResults (cache p)"
  from assms have du: "distinct (map fst ?u)" and dm: "distinct (map fst ?m)"
    and ds: "distinct (map fst ?s)"
    by (simp_all add: cache_ok_def map_ok_def)
  let ?P0 = "new_plugin token"
  let ?P1 = "?P0\<lparr>cache := cache_put (cache ?P0) ''userData'' (fresh now 1800000 ?u)\<rparr>"
  let ?P2 = "?P1\<lparr>cache := cache_put (cache ?P1) ''mediaData'' (fresh now 600000 ?m)\<rparr>"
  let ?P3 = "?P2\<lparr>cache := cache_put (cache ?P2) ''searchResults'' (fresh now 120000 ?s)\<rparr>"
  have s0: "cache_slot (cache ?P0) ''userData'' = Slot_map []"
    by (simp add: new_plugin_def cache_slot_def)
  have s1: "cache_slot (cache ?P1) ''mediaData'' = Slot_map []"
    by (simp add: new_plugin_def cache_slot_def cache_put_def)
  have s2: "cache_slot (cache ?P2) ''searchResults'' = Slot_map []"
    by (simp add: new_plugin_def cache_slot_def cache_put_def)
  have P3: "?P3 = hydrated token now (cache p)"
    by (simp add: hydrated_def new_plugin_def cache_put_def)
  have t1: "''userData'' \<in> {''userData'', ''mediaData'', ''searchResults''}"
    and t2: "''mediaData'' \<in> {''userData'', ''mediaData'', ''searchResults''}"
    and t3: "''searchResults'' \<in> {''userData'', ''mediaData'', ''searchResults''}"
    by simp_all
  note a = load_type_saved [OF s0 du t1 cacheTtl_of_names(1), of now "[(''mediaData'', Map_entries ?m), (''searchResults'', Map_entries ?s)]" 0 0]
  note b = load_type_saved [OF s1 dm t2 cacheTtl_of_names(2), of now "[(''searchResults'', Map_entries ?s)]"]
  note c = load_type_saved [OF s2 ds t3 cacheTtl_of_names(3), of now "[]"]
  have "\<exists>n k. load_types now
      [(''userData'', Map_entries ?u), (''mediaData'', Map_entries ?m),
       (''searchResults'', Map_entries ?s)]
      \<lparr>loaded_plugin = ?P0, loadedCount = 0, expiredCount = 0\<rparr>
      = (\<lparr>loaded_plugin = ?P3, loadedCount = n, expiredCount = k\<rparr>, None)"
    by (simp only: a b c) simp
  then obtain n k where lt: "load_types now
      [(''userData'', Map_entries ?u), (''mediaData'', Map_entries ?m),
       (''searchResults'', Map_entries ?s)]
      \<lparr>loaded_plugin = ?P0, loadedCount = 0, expiredCount = 0\<rparr>
      = (\<lparr>loaded_plugin = ?P3, loadedCount = n, expiredCount = k\<rparr>, None)"
    by blast
  have oe: "Object_entries (cacheData_of p) =
      Inr [(''userData'', Map_entries ?u), (''mediaData'', Map_entries ?m),
           (''searchResults'', Map_entries ?s)]"
    by (simp add: cacheData_of_eq Object_entries_def)
  have "load_try ?P0 now (stringify (cacheData_of p))
      = (case Object_entries (cacheData_of p) of
           Inl e \<Rightarrow> (\<lparr>loaded_plugin = ?P0, loadedCount = 0, expiredCount = 0\<rparr>, Some (Thrown e))
         | Inr props \<Rightarrow> load_types now props \<lparr>loaded_plugin = ?P0, loadedCount = 0, expiredCount = 0\<rparr>)"
    by (simp add: load_try_def JSON_parse_saved [OF assms] Let_def)
  also have "\<dots> = (\<lparr>loaded_plugin = ?P3, loadedCount = n, expiredCount = k\<rparr>, None)"
    by (simp only: oe sum.case lt)
  finally show ?thesis
    unfolding P3 by blast
qed

text \<open>
  C6. For a cache as the plugin builds it, loading into a new plugin what
  \<open>saveCacheToStorage\<close> wrote gives, in each category, exactly the entries whose age at
  the time of loading is below the TTL of the category, in their order; the others are
  discarded. For every stored text and every plugin the call returns and does not throw.
  When the text is not JSON, the cache is left as it was (empty, at startup), the failure
  is logged and the stored text is removed.
\<close>

theorem persistence_round_trip:
  assumes "cache_ok (cache p)"
  shows "(\<exists>n k. loadCacheFromStorage beyond (new_plugin token) now (saveCacheToStorage p True old)
            = Inr \<lparr>plugin_after = hydrated token now (cache p),
                   storage_after = saveCacheToStorage p True old, logged = Loaded n k\<rparr>)
     \<and> (\<forall>b q storage. \<exists>res. loadCacheFromStorage b q now storage = Inr res)
     \<and> (\<forall>b q saved. saved \<noteq> [] \<longrightarrow> JSON_parse saved = Syntax_error \<longrightarrow>
            loadCacheFromStorage b q now (Some saved)
              = Inr \<lparr>plugin_after = q, storage_after = None, logged = Load_failed SyntaxError\<rparr>)"
proof -
  from load_try_saved [OF assms, of token now] obtain n k where
    lt: "load_try (new_plugin token) now (stringify (cacheData_of p))
       = (\<lparr>loaded_plugin = hydrated token now (cache p), loadedCount = n, expiredCount = k\<rparr>, None)"
    by blast
  have 1: "loadCacheFromStorage beyond (new_plugin token) now (saveCacheToStorage p True old)
            = Inr \<lparr>plugin_after = hydrated token now (cache p),
                   storage_after = saveCacheToStorage p True old, logged = Loaded n k\<rparr>"
    by (simp add: loadCacheFromStorage_def saveCacheToStorage_def lt stringify_not_Nil)
  have 2: "\<exists>res. loadCacheFromStorage b q now storage = Inr res" for b q storage
    by (auto simp: loadCacheFromStorage_def split: option.splits prod.splits halt.splits)
  have 3: "loadCacheFromStorage b q now (Some saved)
              = Inr \<lparr>plugin_after = q, storage_after = None, logged = Load_failed SyntaxError\<rparr>"
    if "saved \<noteq> []" "JSON_parse saved = Syntax_error" for b q saved
    using that by (simp add: loadCacheFromStorage_def load_try_def)
  from 1 2 3 show ?thesis by blast
qed

theorem persistence_round_trip_witness:
  "cache_ok \<lparr>userData = [],
             mediaData =
               [(''fresh'', \<lparr>val = Some (JObj [(''id'', JNum 42), (''score'', JDec 85 0)]),
                           timestamp = 1700000500000\<rparr>),
                (''old'', \<lparr>val = Some (JStr ''o''), timestamp = 1699999000000\<rparr>)],
             searchResults = []\<rparr>
   \<and> saveCacheToStorage
        ((new_plugin [])\<lparr>cache := \<lparr>userData = [],
           mediaData =
             [(''fresh'', \<lparr>val = Some (JObj [(''id'', JNum 42), (''score'', JDec 85 0)]),
                         timestamp = 1700000500000\<rparr>),
              (''old'', \<lparr>val = Some (JStr ''o''), timestamp = 1699999000000\<rparr>)],
           searchResults = []\<rparr>\<rparr>) True None
       = Some ''{\"userData\":[],\"mediaData\":[[\"fresh\",{\"value\":{\"id\":42,\"score\":8.5},\"timestamp\":1700000500000}],[\"old\",{\"value\":\"o\",\"timestamp\":1699999000000}]],\"searchResults\":[]}''
   \<and> (case loadCacheFromStorage (\<lambda>s. \<lparr>plugin_after = new_plugin [], storage_after = None, logged = No_saved_data\<rparr>)
           (new_plugin []) 1700000700000
           (saveCacheToStorage
              ((new_plugin [])\<lparr>cache := \<lparr>userData = [],
                 mediaData =
                   [(''fresh'', \<lparr>val = Some (JObj [(''id'', JNum 42), (''score'', JDec 85 0)]),
                               timestamp = 1700000500000\<rparr>),
                    (''old'', \<lparr>val = Some (JStr ''o''), timestamp = 1699999000000\<rparr>)],
                 searchResults = []\<rparr>\<rparr>) True None) of
         Inl e \<Rightarrow> False
       | Inr r \<Rightarrow> cache (plugin_after r) =
           \<lparr>userData = [],
            mediaData =
              [(''fresh'', \<lparr>val = Some (JObj [(''id'', JNum 42), (''score'', JDec 85 0)]),
                          timestamp = 1700000500000\<rparr>)],
            searchResults = []\<rparr>)"
proof -
  define c where "c = \<lparr>userData = [],
             mediaData =
               [(''fresh'', \<lparr>val = Some (JObj [(''id'', JNum 42), (''score'', JDec 85 0)]),
                           timestamp = 1700000500000\<rparr>),
                (''old'', \<lparr>val = Some (JStr ''o''), timestamp = 1699999000000\<rparr>)],
             searchResults = []\<rparr>"
  define p where "p = (new_plugin [])\<lparr>cache := c\<rparr>"
  have ok: "cache_ok c"
    unfolding c_def by code_simp
  then have h: "cache_ok (cache p)" by (simp add: p_def)
  have blob: "saveCacheToStorage p True None
       = Some ''{\"userData\":[],\"mediaData\":[[\"fresh\",{\"value\":{\"id\":42,\"score\":8.5},\"timestamp\":1700000500000}],[\"old\",{\"value\":\"o\",\"timestamp\":1699999000000}]],\"searchResults\":[]}''"
    unfolding p_def c_def by code_simp
  from persistence_round_trip [OF h, of "(\<lambda>s. \<lparr>plugin_after = new_plugin [], storage_after = None, logged = No_saved_data\<rparr>)" "[]" 1700000700000 None] obtain n k where
    "loadCacheFromStorage (\<lambda>s. \<lparr>plugin_after = new_plugin [], storage_after = None, logged = No_saved_data\<rparr>)
           (new_plugin []) 1700000700000 (saveCacheToStorage p True None)
       = Inr \<lparr>plugin_after = hydrated [] 1700000700000 (cache p),
              storage_after = saveCacheToStorage p True None, logged = Loaded n k\<rparr>"
    by blast
  moreover have "cache (hydrated [] 1700000700000 (cache p)) =
           \<lparr>userData = [],
            mediaData =
              [(''fresh'', \<lparr>val = Some (JObj [(''id'', JNum 42), (''score'', JDec 85 0)]),
                          timestamp = 1700000500000\<rparr>)],
            searchResults = []\<rparr>"
    by (simp add: hydrated_def p_def c_def fresh_def)
  ultimately show ?thesis
    using ok blob unfolding p_def c_def by simp
qed

end
